theory Spec2Isabelle
  imports Main "HOL-Library.Multiset" "HOL-Library.AList"
begin

section \<open>Values, errors and results\<close>

text \<open>
  JavaScript values as far as the observer code inspects them. Numbers are kept as
  integers together with the two numbers on which \<open>===\<close> is not plain identity:
  \<open>NaN\<close> (never equal to itself) and negative zero (equal to \<open>0\<close>). An object is a
  reference into the heap.
\<close>

datatype val =
    VUndefined
  | VNull
  | VBool bool
  | VNum int
  | VNaN
  | VNegZero
  | VStr string
  | VRef nat

datatype error = UserError string | TypeError

text \<open>A call either returns or throws; the state it leaves behind is returned beside it.\<close>

datatype 'a res = Ok 'a | Throw error

text \<open>The operator \<open>===\<close>.\<close>

fun strict_eq :: "val \<Rightarrow> val \<Rightarrow> bool" where
  "strict_eq VNaN b = False"
| "strict_eq a VNaN = False"
| "strict_eq VNegZero (VNum n) = (n = 0)"
| "strict_eq (VNum n) VNegZero = (n = 0)"
| "strict_eq a b = (a = b)"

text \<open>\<open>isObject\<close> of util: a non-null value of type object.\<close>

fun isObject :: "val \<Rightarrow> bool" where
  "isObject (VRef a) = True"
| "isObject v = False"

section \<open>Dep and Watcher (src/src/core/observer/dep.js, which holds both)\<close>

text \<open>
  A Watcher, by its fields. Watchers and Deps are referred to by their \<open>id\<close>, which the
  constructors take from a counter and which is therefore unique. \<open>depIds\<close> and
  \<open>newDepIds\<close> are the two \<open>Set\<close>s of Dep ids, \<open>deps\<close> and \<open>newDeps\<close> the two arrays.
\<close>

record watcher =
  vm :: nat
  deep :: bool
  user :: bool
  lazy :: bool
  sync :: bool
  dirty :: bool
  active :: bool
  deps :: "nat list"
  newDeps :: "nat list"
  depIds :: "nat set"
  newDepIds :: "nat set"
  wvalue :: val

text \<open>The two fields of a component instance that the watcher code reads and writes.\<close>

record component =
  vm_watchers :: "nat list"
  isBeingDestroyed :: bool

text \<open>
  The state of the module: the Dep counter and every Dep's \<open>subs\<close> array, \<open>Dep.target\<close>
  and \<open>targetStack\<close>, the Watcher counter and the watchers, the component instances, the
  scheduler's queue and the errors handed to \<open>handleError\<close>. \<open>sdata\<close> is everything else
  a getter or a callback may read and write; the observer code further down keeps its
  heap there.
\<close>

record 'd state =
  dep_uid :: nat
  subs :: "nat \<Rightarrow> nat list"
  target :: "nat option"
  targetStack :: "nat option list"
  watcher_uid :: nat
  watchers :: "nat \<Rightarrow> watcher"
  vms :: "nat \<Rightarrow> component"
  queue :: "nat list"
  handled :: "(error \<times> nat) list"
  warned :: nat
  sdata :: 'd

text \<open>
  One step of a user's getter: a read of a reactive field, which calls \<open>depend()\<close> on the
  field's Dep, or anything else the getter does to the state of the module. A write to a
  reactive field is of the second kind: the store, followed by \<open>notify\<close> on the field's
  Dep, which may run watchers, the running one included.
\<close>

datatype 'd act = Reads nat | Does "'d state \<Rightarrow> 'd state"

text \<open>
  What the code takes from outside: the build (\<open>process.env.NODE_ENV\<close>), \<open>config.async\<close>,
  \<open>isServerRendering()\<close>, and the user's functions. One call of a watcher's getter
  (\<open>this.getter.call(vm, vm)\<close>) is described by the steps it takes, in order, and by its
  outcome; both may depend on the state in which it starts. \<open>traverse\<close> (not among the
  sources) is given by the Deps it touches. A watcher's callback works on \<open>sdata\<close> and may
  throw.
\<close>

record 'd env =
  production :: bool
  async :: bool
  serverRendering :: bool
  getters :: "nat \<Rightarrow> 'd state \<Rightarrow> 'd act list \<times> val res"
  traverse :: "val \<Rightarrow> 'd state \<Rightarrow> nat list"
  cbs :: "nat \<Rightarrow> val \<Rightarrow> val \<Rightarrow> 'd \<Rightarrow> 'd \<times> unit res"

subsection \<open>Dep\<close>

definition new_Dep :: "'d state \<Rightarrow> nat \<times> 'd state" where
  "new_Dep s = (dep_uid s, s\<lparr>dep_uid := Suc (dep_uid s), subs := (subs s)(dep_uid s := [])\<rparr>)"

definition addSub :: "nat \<Rightarrow> nat \<Rightarrow> 'd state \<Rightarrow> 'd state" where
  "addSub d w s = s\<lparr>subs := (subs s)(d := subs s d @ [w])\<rparr>"

text \<open>
  Modelled from the spec: \<open>remove\<close> of util/index, which is not among the sources.
  "\<open>unregister(computation)\<close> removes it": the item is looked up and taken out of the array
  once. On a list without duplicates this removes every occurrence.
\<close>

definition remove_arr :: "'a list \<Rightarrow> 'a \<Rightarrow> 'a list" where
  "remove_arr arr item = remove1 item arr"

definition removeSub :: "nat \<Rightarrow> nat \<Rightarrow> 'd state \<Rightarrow> 'd state" where
  "removeSub d w s = s\<lparr>subs := (subs s)(d := remove_arr (subs s d) w)\<rparr>"

definition pushTarget :: "nat option \<Rightarrow> 'd state \<Rightarrow> 'd state" where
  "pushTarget t s = s\<lparr>targetStack := targetStack s @ [t], target := t\<rparr>"

text \<open>
  \<open>targetStack.pop()\<close> leaves an empty array empty, and reading past the end of an array
  gives \<open>undefined\<close>, which as a target is as good as \<open>null\<close>.
\<close>

definition popTarget :: "'d state \<Rightarrow> 'd state" where
  "popTarget s =
     (let st = butlast (targetStack s)
      in s\<lparr>targetStack := st, target := (if st = [] then None else last st)\<rparr>)"

subsection \<open>Watcher: dependency collection\<close>

definition addDep :: "nat \<Rightarrow> nat \<Rightarrow> 'd state \<Rightarrow> 'd state" where
  "addDep w d s =
     (let wr = watchers s w in
      if d \<notin> newDepIds wr then
        (let s1 = s\<lparr>watchers := (watchers s)
                    (w := wr\<lparr>newDeps := newDeps wr @ [d], newDepIds := insert d (newDepIds wr)\<rparr>)\<rparr>
         in if d \<notin> depIds wr then addSub d w s1 else s1)
      else s)"

text \<open>\<open>Dep.depend\<close>.\<close>

definition dep_depend :: "nat \<Rightarrow> 'd state \<Rightarrow> 'd state" where
  "dep_depend d s = (case target s of Some w \<Rightarrow> addDep w d s | None \<Rightarrow> s)"

text \<open>
  The loop of \<open>cleanupDeps\<close>: \<open>let i = this.deps.length; while (i--) { ... }\<close>, the
  argument being \<open>i\<close> before the decrement.
\<close>

primrec cleanup_walk :: "nat \<Rightarrow> nat \<Rightarrow> 'd state \<Rightarrow> 'd state" where
  "cleanup_walk w 0 s = s"
| "cleanup_walk w (Suc i) s =
     (let dep = deps (watchers s w) ! i
      in cleanup_walk w i
           (if dep \<notin> newDepIds (watchers s w) then removeSub dep w s else s))"

definition cleanupDeps :: "nat \<Rightarrow> 'd state \<Rightarrow> 'd state" where
  "cleanupDeps w s =
     (let s1 = cleanup_walk w (length (deps (watchers s w))) s;
          wr = watchers s1 w
      in s1\<lparr>watchers := (watchers s1)
              (w := wr\<lparr>depIds := newDepIds wr, newDepIds := {},
                       deps := newDeps wr, newDeps := []\<rparr>)\<rparr>)"

text \<open>
  Modelled from the spec: \<open>handleError\<close> of util, which is not among the sources: the
  failure is routed "to an error-handling boundary" and evaluation continues. The boundary
  keeps the error and the component it came from.
\<close>

definition handleError :: "error \<Rightarrow> nat \<Rightarrow> 'd state \<Rightarrow> 'd state" where
  "handleError e v s = s\<lparr>handled := handled s @ [(e, v)]\<rparr>"

text \<open>The reads of \<open>traverse\<close>: one \<open>depend()\<close> after the other.\<close>

definition touch :: "nat list \<Rightarrow> 'd state \<Rightarrow> 'd state" where
  "touch ds s = fold dep_depend ds s"

text \<open>The steps of a getter, one after the other, and the Deps it reads.\<close>

fun perform :: "'d act list \<Rightarrow> 'd state \<Rightarrow> 'd state" where
  "perform [] s = s"
| "perform (Reads d # as) s = perform as (dep_depend d s)"
| "perform (Does f # as) s = perform as (f s)"

fun reads :: "'d act list \<Rightarrow> nat list" where
  "reads [] = []"
| "reads (Reads d # as) = d # reads as"
| "reads (Does f # as) = reads as"

text \<open>
  \<open>Watcher.get\<close>. \<open>this.vm\<close> is read before the getter is called, \<open>this.user\<close> in the
  \<open>catch\<close> block and \<open>this.deep\<close> in the \<open>finally\<close> block. The \<open>catch\<close> block runs before the
  \<open>finally\<close> block; after a failure \<open>value\<close> is still \<open>undefined\<close>. The result is the returned
  value or the error that leaves \<open>get\<close>.
\<close>

definition get :: "'d env \<Rightarrow> nat \<Rightarrow> 'd state \<Rightarrow> 'd state \<times> val res" where
  "get E w s =
     (let s1 = pushTarget (Some w) s;
          r = getters E w s1;
          s2 = perform (fst r) s1;
          wr = watchers s2 w;
          s3 = (case snd r of
                  Ok v \<Rightarrow> s2
                | Throw e \<Rightarrow> if user wr then handleError e (vm (watchers s1 w)) s2 else s2);
          v = (case snd r of Ok v \<Rightarrow> v | Throw e \<Rightarrow> VUndefined);
          s4 = (if deep (watchers s3 w) then touch (traverse E v s3) s3 else s3);
          s5 = popTarget s4;
          s6 = cleanupDeps w s5
      in (s6, case snd r of
                Ok v \<Rightarrow> Ok v
              | Throw e \<Rightarrow> if user wr then Ok VUndefined else Throw e))"

text \<open>
  The Deps whose \<open>depend()\<close> fires during \<open>get E w s\<close>: those the getter reads, then, for a
  deep watcher, those of \<open>traverse\<close>.
\<close>

definition fired :: "'d env \<Rightarrow> nat \<Rightarrow> 'd state \<Rightarrow> nat list" where
  "fired E w s =
     (let s1 = pushTarget (Some w) s;
          r = getters E w s1;
          s2 = perform (fst r) s1;
          wr = watchers s2 w;
          s3 = (case snd r of
                  Ok v \<Rightarrow> s2
                | Throw e \<Rightarrow> if user wr then handleError e (vm (watchers s1 w)) s2 else s2);
          v = (case snd r of Ok v \<Rightarrow> v | Throw e \<Rightarrow> VUndefined)
      in reads (fst r) @ (if deep (watchers s3 w) then traverse E v s3 else []))"

subsection \<open>Watcher: update, run, evaluate, depend, teardown\<close>

text \<open>
  Modelled from the spec: \<open>queueWatcher\<close> of the scheduler, which is not among the
  sources: "if the computation's identity is already queued for this flush cycle, no-op",
  otherwise it is appended; the flush itself is deferred.
\<close>

definition queueWatcher :: "nat \<Rightarrow> 'd state \<Rightarrow> 'd state" where
  "queueWatcher w s = (if w \<in> set (queue s) then s else s\<lparr>queue := queue s @ [w]\<rparr>)"

text \<open>
  \<open>Watcher.run\<close>. A user watcher's callback goes through \<open>invokeWithErrorHandling\<close>
  (not among the sources), which hands a failure to \<open>handleError\<close>; any other callback is
  called directly and its failure leaves \<open>run\<close>.
\<close>

definition run :: "'d env \<Rightarrow> nat \<Rightarrow> 'd state \<Rightarrow> 'd state \<times> unit res" where
  "run E w s =
     (if active (watchers s w) then
        (case get E w s of
           (s1, Throw e) \<Rightarrow> (s1, Throw e)
         | (s1, Ok v) \<Rightarrow>
             (let wr = watchers s1 w in
              if \<not> strict_eq v (wvalue wr) \<or> isObject v \<or> deep wr then
                (let oldValue = wvalue wr;
                     s2 = s1\<lparr>watchers := (watchers s1)(w := wr\<lparr>wvalue := v\<rparr>)\<rparr>;
                     c = cbs E w v oldValue (sdata s2);
                     s3 = s2\<lparr>sdata := fst c\<rparr>
                 in (case snd c of
                       Ok u \<Rightarrow> (s3, Ok ())
                     | Throw e \<Rightarrow>
                         if user wr then (handleError e (vm wr) s3, Ok ())
                         else (s3, Throw e)))
              else (s1, Ok ())))
      else (s, Ok ()))"

definition update :: "'d env \<Rightarrow> nat \<Rightarrow> 'd state \<Rightarrow> 'd state \<times> unit res" where
  "update E w s =
     (if lazy (watchers s w) then
        (s\<lparr>watchers := (watchers s)(w := (watchers s w)\<lparr>dirty := True\<rparr>)\<rparr>, Ok ())
      else if sync (watchers s w) then run E w s
      else (queueWatcher w s, Ok ()))"

definition evaluate :: "'d env \<Rightarrow> nat \<Rightarrow> 'd state \<Rightarrow> 'd state \<times> unit res" where
  "evaluate E w s =
     (case get E w s of
        (s1, Throw e) \<Rightarrow> (s1, Throw e)
      | (s1, Ok v) \<Rightarrow>
          (s1\<lparr>watchers := (watchers s1)(w := (watchers s1 w)\<lparr>wvalue := v, dirty := False\<rparr>)\<rparr>,
           Ok ()))"

text \<open>\<open>Watcher.depend\<close>: \<open>let i = this.deps.length; while (i--) this.deps[i].depend()\<close>.\<close>

primrec depend_walk :: "nat \<Rightarrow> nat \<Rightarrow> 'd state \<Rightarrow> 'd state" where
  "depend_walk w 0 s = s"
| "depend_walk w (Suc i) s = depend_walk w i (dep_depend (deps (watchers s w) ! i) s)"

definition watcher_depend :: "nat \<Rightarrow> 'd state \<Rightarrow> 'd state" where
  "watcher_depend w s = depend_walk w (length (deps (watchers s w))) s"

text \<open>The loop of \<open>teardown\<close>: \<open>while (i--) this.deps[i].removeSub(this)\<close>.\<close>

primrec teardown_walk :: "nat \<Rightarrow> nat \<Rightarrow> 'd state \<Rightarrow> 'd state" where
  "teardown_walk w 0 s = s"
| "teardown_walk w (Suc i) s = teardown_walk w i (removeSub (deps (watchers s w) ! i) w s)"

definition teardown :: "nat \<Rightarrow> 'd state \<Rightarrow> 'd state" where
  "teardown w s =
     (if active (watchers s w) then
        (let v = vm (watchers s w);
             s1 = (if \<not> isBeingDestroyed (vms s v)
                   then s\<lparr>vms := (vms s)(v := (vms s v)\<lparr>vm_watchers := remove_arr (vm_watchers (vms s v)) w\<rparr>)\<rparr>
                   else s);
             s2 = teardown_walk w (length (deps (watchers s1 w))) s1
         in s2\<lparr>watchers := (watchers s2)(w := (watchers s2 w)\<lparr>active := False\<rparr>)\<rparr>)
      else s)"

subsection \<open>Dep.notify\<close>

text \<open>
  The loop \<open>for (let i = 0, l = subs.length; i < l; i++) subs[i].update()\<close> over the local
  array \<open>subs\<close>; an \<open>update\<close> that throws ends it.
\<close>

function notify_loop :: "'d env \<Rightarrow> nat list \<Rightarrow> nat \<Rightarrow> 'd state \<Rightarrow> 'd state \<times> unit res" where
  "notify_loop E xs i s =
     (if i < length xs then
        (case update E (xs ! i) s of
           (s1, Throw e) \<Rightarrow> (s1, Throw e)
         | (s1, Ok u) \<Rightarrow> notify_loop E xs (Suc i) s1)
      else (s, Ok ()))"
  by pat_completeness auto
termination
  by (relation "measure (\<lambda>(E, xs, i, s). length xs - i)") auto

declare notify_loop.simps [simp del]

text \<open>
  \<open>Dep.notify\<close>: \<open>this.subs.slice()\<close> copies the array; the comparison \<open>a.id - b.id\<close> sorts
  watchers by their id, ascending.
\<close>

definition notify :: "'d env \<Rightarrow> nat \<Rightarrow> 'd state \<Rightarrow> 'd state \<times> unit res" where
  "notify E d s =
     (let copied = subs s d;
          ordered = (if \<not> production E \<and> \<not> async E then sort_key (\<lambda>a. a) copied else copied)
      in notify_loop E ordered 0 s)"

text \<open>
  The constructor of \<open>Watcher\<close>, given the options as four flags (\<open>before\<close> plays no part
  here) and an expression that is a function.
\<close>

definition new_Watcher ::
  "'d env \<Rightarrow> nat \<Rightarrow> bool \<Rightarrow> bool \<Rightarrow> bool \<Rightarrow> bool \<Rightarrow> 'd state \<Rightarrow> nat \<times> 'd state \<times> unit res" where
  "new_Watcher E v o_deep o_user o_lazy o_sync s =
     (let w = Suc (watcher_uid s);
          s1 = s\<lparr>vms := (vms s)(v := (vms s v)\<lparr>vm_watchers := vm_watchers (vms s v) @ [w]\<rparr>),
                 watcher_uid := w,
                 watchers := (watchers s)
                   (w := \<lparr>vm = v, deep = o_deep, user = o_user, lazy = o_lazy, sync = o_sync,
                         dirty = o_lazy, active = True, deps = [], newDeps = [],
                         depIds = {}, newDepIds = {}, wvalue = VUndefined\<rparr>)\<rparr>
      in if o_lazy then (w, s1, Ok ())
         else (case get E w s1 of
                 (s2, Throw e) \<Rightarrow> (w, s2, Throw e)
               | (s2, Ok x) \<Rightarrow>
                   (w, s2\<lparr>watchers := (watchers s2)(w := (watchers s2 w)\<lparr>wvalue := x\<rparr>)\<rparr>, Ok ())))"

section \<open>The observer (src/unnamed/part_001: Observer, observe, defineReactive, set)\<close>

subsection \<open>Objects and reactive properties\<close>

text \<open>
  A property key is a valid array index (what \<open>isValidArrayIndex\<close> of util accepts) or any
  other name.
\<close>

datatype key = Idx nat | Name string

text \<open>
  What \<open>Array.isArray\<close>, \<open>isPlainObject\<close> and \<open>instanceof VNode\<close> tell about an object.
\<close>

datatype kind = PlainObject | ArrayObject | VNodeObject | OtherObject

text \<open>
  An \<open>Observer\<close>: the address of its \<open>value\<close>, the id of its \<open>dep\<close>, and \<open>vmCount\<close>. It lives
  in the own property \<open>__ob__\<close> of its value, and its Dep's id serves as its handle.
\<close>

record observer =
  ob_value :: nat
  ob_dep :: nat
  vmCount :: nat

text \<open>
  An own property is a data property, an accessor property defined by the user, or the
  accessor pair that \<open>defineReactive\<close> installed, named by the id of the Dep it closes
  over. A user's getter reads, and a user's setter writes, the user's own state \<open>'u\<close>;
  accessors that call back into the module are not covered.
\<close>

datatype 'u slot =
    Data val
  | Accessor "('u \<Rightarrow> val) option" "(val \<Rightarrow> 'u \<Rightarrow> 'u) option"
  | Reactive nat

record 'u property =
  pslot :: "'u slot"
  enumerable :: bool
  configurable :: bool

text \<open>
  The variables that \<open>reactiveGetter\<close> and \<open>reactiveSetter\<close> close over: \<open>val\<close>, \<open>childOb\<close>
  (the handle of the child's Observer, if any), the \<open>getter\<close> and \<open>setter\<close> of the property
  that was there before, \<open>shallow\<close>, and whether a \<open>customSetter\<close> was given.
\<close>

record 'u closure =
  cval :: val
  childOb :: "nat option"
  getter :: "('u \<Rightarrow> val) option"
  setter :: "(val \<Rightarrow> 'u \<Rightarrow> 'u) option"
  shallow :: bool
  customSetter :: bool

text \<open>
  An object: its own properties in the order \<open>Object.keys\<close> lists them, its items when it
  is an array, \<open>_isVue\<close>, \<open>__ob__\<close>, and the keys found on its prototype chain. Data
  properties are writable, and an object stays extensible or not as it is.
\<close>

record 'u obj =
  kind :: kind
  extensible :: bool
  isVue :: bool
  ob :: "observer option"
  props :: "(key \<times> 'u property) list"
  elems :: "val list"
  proto_keys :: "key list"

text \<open>
  What the observer code keeps in \<open>sdata\<close>: the heap (an object's address is its index),
  the closures by Dep id, the user's state, \<open>shouldObserve\<close>, the Deps whose
  \<open>customSetter\<close> was called, and the keys of \<open>Object.prototype\<close>.
\<close>

record 'u hp =
  heap :: "'u obj list"
  closures :: "nat \<Rightarrow> 'u closure"
  ustate :: 'u
  shouldObserve :: bool
  customSetterCalls :: "nat list"
  objectProto :: "key list"

type_synonym 'u hstate = "'u hp state"
type_synonym 'u henv = "'u hp env"

definition objs :: "'u hstate \<Rightarrow> 'u obj list" where
  "objs s = heap (sdata s)"

definition upd_obj :: "nat \<Rightarrow> ('u obj \<Rightarrow> 'u obj) \<Rightarrow> 'u hstate \<Rightarrow> 'u hstate" where
  "upd_obj a f s = s\<lparr>sdata := (sdata s)\<lparr>heap := (heap (sdata s))[a := f (heap (sdata s) ! a)]\<rparr>\<rparr>"

definition upd_closure :: "nat \<Rightarrow> ('u closure \<Rightarrow> 'u closure) \<Rightarrow> 'u hstate \<Rightarrow> 'u hstate" where
  "upd_closure d f s =
     s\<lparr>sdata := (sdata s)\<lparr>closures := (closures (sdata s))(d := f (closures (sdata s) d))\<rparr>\<rparr>"

text \<open>
  The object a value refers to. A value that is no reference into the heap is no object:
  \<open>isObject\<close> fails for it.
\<close>

definition deref :: "'u hstate \<Rightarrow> val \<Rightarrow> nat option" where
  "deref s v = (case v of VRef a \<Rightarrow> if a < length (objs s) then Some a else None | _ \<Rightarrow> None)"

text \<open>\<open>Object.keys\<close>: the own enumerable keys.\<close>

definition keys_of :: "'u obj \<Rightarrow> key list" where
  "keys_of x = map fst (filter (\<lambda>kp. enumerable (snd kp)) (props x))"

text \<open>Reading an item past the end of an array gives \<open>undefined\<close>.\<close>

definition item_at :: "val list \<Rightarrow> nat \<Rightarrow> val" where
  "item_at xs i = (if i < length xs then xs ! i else VUndefined)"

text \<open>\<open>ob.vmCount++\<close> on the Observer of the object at an address.\<close>

definition vmCount_incr :: "nat \<Rightarrow> 'u hstate \<Rightarrow> 'u hstate" where
  "vmCount_incr a s =
     upd_obj a (\<lambda>x. x\<lparr>ob := map_option (\<lambda>b. b\<lparr>vmCount := Suc (vmCount b)\<rparr>) (ob x)\<rparr>) s"

subsection \<open>observe, Observer, defineReactive\<close>

text \<open>
  The first half of \<open>defineReactive\<close>, up to the value it starts with: a property that is
  not configurable is left alone; otherwise the accessor pair is installed over the getter
  and setter found, with \<open>val = obj[key]\<close> when only two arguments were passed and the
  property has no getter or has a setter. Three cases are left without a result, none of
  which the sources reach: a property that is already reactive (its getter and setter
  would be the earlier pair), a new key on an object that is not extensible
  (\<open>Object.defineProperty\<close> throws), and a value read through the prototype chain.
\<close>

datatype 'u plan =
    Leave
  | NoResult
  | Install "('u \<Rightarrow> val) option" "(val \<Rightarrow> 'u \<Rightarrow> 'u) option" val

definition arg_or_undefined :: "val option \<Rightarrow> val" where
  "arg_or_undefined varg = (case varg of Some y \<Rightarrow> y | None \<Rightarrow> VUndefined)"

definition plan_of :: "'u obj \<Rightarrow> 'u \<Rightarrow> key \<Rightarrow> val option \<Rightarrow> 'u plan" where
  "plan_of x u k varg =
     (case map_of (props x) k of
        Some p \<Rightarrow>
          if \<not> configurable p then Leave
          else (case pslot p of
                  Data z \<Rightarrow> Install None None (case varg of None \<Rightarrow> z | Some y \<Rightarrow> y)
                | Accessor g st \<Rightarrow>
                    Install g st
                      (if (g = None \<or> st \<noteq> None) \<and> varg = None
                       then (case g of Some f \<Rightarrow> f u | None \<Rightarrow> VUndefined)
                       else arg_or_undefined varg)
                | Reactive d \<Rightarrow> NoResult)
      | None \<Rightarrow>
          if \<not> extensible x \<or> (varg = None \<and> k \<in> set (proto_keys x)) then NoResult
          else Install None None (arg_or_undefined varg))"

text \<open>
  \<open>Object.defineProperty(obj, key, {enumerable: true, configurable: true, get, set})\<close> for
  the closure of Dep \<open>d\<close>.
\<close>

definition install :: "nat \<Rightarrow> key \<Rightarrow> nat \<Rightarrow> 'u closure \<Rightarrow> 'u hstate \<Rightarrow> 'u hstate" where
  "install a k d c s =
     upd_obj a (\<lambda>x. x\<lparr>props := AList.update k
                  \<lparr>pslot = Reactive d, enumerable = True, configurable = True\<rparr> (props x)\<rparr>)
       (upd_closure d (\<lambda>old. c) s)"

text \<open>
  \<open>observe\<close>, the constructor of \<open>Observer\<close> (inside \<open>observe\<close>), \<open>defineReactive\<close>, \<open>walk\<close> and
  \<open>observeArray\<close> call each other along the object graph, which may be cyclic. The second
  argument bounds the depth of nested \<open>observe\<close> calls; \<open>None\<close> means no result within that
  bound (or one of the cases above). \<open>observe_total\<close> below shows that a bound above the
  number of objects still to be observed always suffices. \<open>observe\<close> returns the handle of
  the Observer, or \<open>None\<close> for \<open>undefined\<close>. \<open>observeArray\<close> reads \<open>items[i]\<close> at each step, for
  \<open>i\<close> up to the length the array had at the start. \<open>protoAugment\<close> and \<open>copyAugment\<close>
  give an array the methods of array.js, which is not among the sources; they add no
  enumerable property and show in \<open>set\<close> only, where \<open>splice\<close> is called.
\<close>

function (sequential) observe :: "'u henv \<Rightarrow> nat \<Rightarrow> val \<Rightarrow> bool \<Rightarrow> 'u hstate \<Rightarrow> ('u hstate \<times> nat option) option"
  and defineReactive ::
    "'u henv \<Rightarrow> nat \<Rightarrow> nat \<Rightarrow> key \<Rightarrow> val option \<Rightarrow> bool \<Rightarrow> bool \<Rightarrow> 'u hstate \<Rightarrow> 'u hstate option"
  and walk :: "'u henv \<Rightarrow> nat \<Rightarrow> nat \<Rightarrow> key list \<Rightarrow> 'u hstate \<Rightarrow> 'u hstate option"
  and observeArray :: "'u henv \<Rightarrow> nat \<Rightarrow> nat \<Rightarrow> nat \<Rightarrow> nat \<Rightarrow> 'u hstate \<Rightarrow> 'u hstate option"
where
  "observe E 0 v asRootData s = None"
| "observe E (Suc n) v asRootData s =
     (case deref s v of
        None \<Rightarrow> Some (s, None)
      | Some a \<Rightarrow>
          if kind (objs s ! a) = VNodeObject then Some (s, None)
          else
            (case ob (objs s ! a) of
               Some b \<Rightarrow> Some (if asRootData then vmCount_incr a s else s, Some (ob_dep b))
             | None \<Rightarrow>
                 if shouldObserve (sdata s) \<and> \<not> serverRendering E
                    \<and> (kind (objs s ! a) = ArrayObject \<or> kind (objs s ! a) = PlainObject)
                    \<and> extensible (objs s ! a) \<and> \<not> isVue (objs s ! a)
                 then
                   (let d = dep_uid s;
                        s1 = upd_obj a (\<lambda>x. x\<lparr>ob := Some \<lparr>ob_value = a, ob_dep = d, vmCount = 0\<rparr>\<rparr>)
                               (snd (new_Dep s))
                    in case (if kind (objs s1 ! a) = ArrayObject
                             then observeArray E n a 0 (length (elems (objs s1 ! a))) s1
                             else walk E n a (keys_of (objs s1 ! a)) s1) of
                         None \<Rightarrow> None
                       | Some s2 \<Rightarrow> Some (if asRootData then vmCount_incr a s2 else s2, Some d))
                 else Some (s, None)))"
| "defineReactive E n a k varg custom shal s =
     (let d = dep_uid s;
          s1 = snd (new_Dep s)
      in case plan_of (objs s1 ! a) (ustate (sdata s1)) k varg of
           Leave \<Rightarrow> Some s1
         | NoResult \<Rightarrow> None
         | Install g st v \<Rightarrow>
             (case (if shal then Some (s1, None) else observe E n v False s1) of
                None \<Rightarrow> None
              | Some (s2, c) \<Rightarrow>
                  Some (install a k d
                          \<lparr>cval = v, childOb = c, getter = g, setter = st,
                           shallow = shal, customSetter = custom\<rparr> s2)))"
| "walk E n a [] s = Some s"
| "walk E n a (k # ks) s =
     (case defineReactive E n a k None False False s of
        None \<Rightarrow> None
      | Some s1 \<Rightarrow> walk E n a ks s1)"
| "observeArray E n a i 0 s = Some s"
| "observeArray E n a i (Suc l) s =
     (case observe E n (item_at (elems (objs s ! a)) i) False s of
        None \<Rightarrow> None
      | Some (s1, c) \<Rightarrow> observeArray E n a (Suc i) l s1)"
  by pat_completeness auto

termination
  by (relation
      "(\<lambda>x. case x of
              Inl (Inl (E, n, v, r, s)) \<Rightarrow> n
            | Inl (Inr (E, n, a, k, varg, c, sh, s)) \<Rightarrow> n
            | Inr (Inl (E, n, a, ks, s)) \<Rightarrow> n
            | Inr (Inr (E, n, a, i, l, s)) \<Rightarrow> n)
       <*mlex*>
       measure (\<lambda>x. case x of
              Inl (Inl (E, n, v, r, s)) \<Rightarrow> 0
            | Inl (Inr (E, n, a, k, varg, c, sh, s)) \<Rightarrow> 1
            | Inr (Inl (E, n, a, ks, s)) \<Rightarrow> 2 + length ks
            | Inr (Inr (E, n, a, i, l, s)) \<Rightarrow> 1 + l)")
    (auto simp: wf_mlex mlex_less mlex_leq)


declare observe.simps [simp del] defineReactive.simps [simp del]

subsection \<open>reactiveSetter\<close>

text \<open>The test \<open>newVal === value || (newVal !== newVal && value !== value)\<close>.\<close>

definition same_value :: "val \<Rightarrow> val \<Rightarrow> bool" where
  "same_value newVal v \<longleftrightarrow>
     strict_eq newVal v \<or> (\<not> strict_eq newVal newVal \<and> \<not> strict_eq v v)"

text \<open>
  \<open>reactiveSetter\<close> of the property whose Dep is \<open>d\<close>. A call of \<open>customSetter\<close> is recorded.
\<close>

definition reactiveSetter ::
  "'u henv \<Rightarrow> nat \<Rightarrow> nat \<Rightarrow> val \<Rightarrow> 'u hstate \<Rightarrow> ('u hstate \<times> unit res) option" where
  "reactiveSetter E n d newVal s =
     (let c = closures (sdata s) d;
          v = (case getter c of Some g \<Rightarrow> g (ustate (sdata s)) | None \<Rightarrow> cval c)
      in if same_value newVal v then Some (s, Ok ())
         else
           (let s1 = (if \<not> production E \<and> customSetter c
                      then s\<lparr>sdata := (sdata s)\<lparr>customSetterCalls := customSetterCalls (sdata s) @ [d]\<rparr>\<rparr>
                      else s)
            in if getter c \<noteq> None \<and> setter c = None then Some (s1, Ok ())
               else
                 (let s2 = (case setter c of
                              Some st \<Rightarrow> s1\<lparr>sdata := (sdata s1)\<lparr>ustate := st newVal (ustate (sdata s1))\<rparr>\<rparr>
                            | None \<Rightarrow> upd_closure d (\<lambda>x. x\<lparr>cval := newVal\<rparr>) s1)
                  in case (if shallow c then Some (s2, None) else observe E n newVal False s2) of
                       None \<Rightarrow> None
                     | Some (s3, b) \<Rightarrow>
                         Some (notify E d (upd_closure d (\<lambda>x. x\<lparr>childOb := b\<rparr>) s3)))))"

subsection \<open>set\<close>

text \<open>\<open>key in target\<close>: an own property, an item of an array, or a key of the prototype chain.\<close>

definition has_own :: "'u obj \<Rightarrow> key \<Rightarrow> bool" where
  "has_own x k \<longleftrightarrow>
     map_of (props x) k \<noteq> None
     \<or> (kind x = ArrayObject \<and> (case k of Idx i \<Rightarrow> i < length (elems x) | Name m \<Rightarrow> False))"

definition key_in :: "'u obj \<Rightarrow> key \<Rightarrow> bool" where
  "key_in x k \<longleftrightarrow> has_own x k \<or> k \<in> set (proto_keys x)"

text \<open>
  The assignment \<open>target[key] = val\<close> in strict mode, for a key that is not the index of an
  array (\<open>set\<close> has dealt with those): to an own data property, through a user's setter (a
  \<open>TypeError\<close> when there is a getter only), through \<open>reactiveSetter\<close>, or as a new property
  (a \<open>TypeError\<close> on an object that is not extensible). An assignment to a key found on
  the prototype chain only is left without a result.
\<close>

definition assign ::
  "'u henv \<Rightarrow> nat \<Rightarrow> nat \<Rightarrow> key \<Rightarrow> val \<Rightarrow> 'u hstate \<Rightarrow> ('u hstate \<times> unit res) option" where
  "assign E n a k v s =
     (case map_of (props (objs s ! a)) k of
        Some p \<Rightarrow>
          (case pslot p of
             Data z \<Rightarrow>
               Some (upd_obj a (\<lambda>x. x\<lparr>props := AList.update k (p\<lparr>pslot := Data v\<rparr>) (props x)\<rparr>) s, Ok ())
           | Accessor g st \<Rightarrow>
               (case st of
                  None \<Rightarrow> Some (s, Throw TypeError)
                | Some f \<Rightarrow> Some (s\<lparr>sdata := (sdata s)\<lparr>ustate := f v (ustate (sdata s))\<rparr>\<rparr>, Ok ()))
           | Reactive d \<Rightarrow> reactiveSetter E n d v s)
      | None \<Rightarrow>
          if k \<in> set (proto_keys (objs s ! a)) then None
          else if extensible (objs s ! a) then
            Some (upd_obj a (\<lambda>x. x\<lparr>props := props x @
                    [(k, \<lparr>pslot = Data v, enumerable = True, configurable = True\<rparr>)]\<rparr>) s, Ok ())
          else Some (s, Throw TypeError))"

text \<open>\<open>warn\<close>, which the development build calls, counted.\<close>

definition warn :: "'d env \<Rightarrow> 'd state \<Rightarrow> 'd state" where
  "warn E s = (if production E then s else s\<lparr>warned := Suc (warned s)\<rparr>)"

text \<open>
  \<open>target.length = Math.max(target.length, key); target.splice(key, 1, val)\<close> on the
  items, a hole being \<open>undefined\<close>.
\<close>

definition splice1 :: "val list \<Rightarrow> nat \<Rightarrow> val \<Rightarrow> val list" where
  "splice1 xs i v =
     (let padded = xs @ replicate (i - length xs) VUndefined
      in take i padded @ [v] @ drop (Suc i) padded)"

text \<open>\<open>return val\<close> after a call that may have thrown.\<close>

definition returning :: "'a \<Rightarrow> ('s \<times> unit res) option \<Rightarrow> ('s \<times> 'a res) option" where
  "returning v r =
     (case r of
        None \<Rightarrow> None
      | Some (s, Throw e) \<Rightarrow> Some (s, Throw e)
      | Some (s, Ok u) \<Rightarrow> Some (s, Ok v))"

text \<open>
  \<open>set\<close>. A target that is \<open>undefined\<close>, \<open>null\<close> or primitive is warned about, and
  \<open>key in target\<close> then throws a \<open>TypeError\<close>.

  Modelled from the spec: the \<open>splice\<close> of an observed array, intercepted in array.js,
  which is not among the sources: it "(a) performs the underlying mutation, (b) reifies
  any newly-inserted composite values, and (c) announces the array's own Subject".
\<close>

definition set_op ::
  "'u henv \<Rightarrow> nat \<Rightarrow> val \<Rightarrow> key \<Rightarrow> val \<Rightarrow> 'u hstate \<Rightarrow> ('u hstate \<times> val res) option" where
  "set_op E n tgt k v s =
     (case deref s tgt of
        None \<Rightarrow> Some (warn E s, Throw TypeError)
      | Some a \<Rightarrow>
          (let x = objs s ! a in
           if kind x = ArrayObject \<and> (case k of Idx i \<Rightarrow> True | Name m \<Rightarrow> False) then
             (let s1 = upd_obj a (\<lambda>y. y\<lparr>elems := splice1 (elems y) (case k of Idx i \<Rightarrow> i | Name m \<Rightarrow> 0) v\<rparr>) s
              in case ob x of
                   None \<Rightarrow> Some (s1, Ok v)
                 | Some b \<Rightarrow>
                     (case observe E n v False s1 of
                        None \<Rightarrow> None
                      | Some (s2, c) \<Rightarrow> returning v (Some (notify E (ob_dep b) s2))))
           else if key_in x k \<and> k \<notin> set (objectProto (sdata s)) then
             returning v (assign E n a k v s)
           else if isVue x \<or> (case ob x of Some b \<Rightarrow> vmCount b \<noteq> 0 | None \<Rightarrow> False) then
             Some (warn E s, Ok v)
           else
             (case ob x of
                None \<Rightarrow> returning v (assign E n a k v s)
              | Some b \<Rightarrow>
                  (case defineReactive E n (ob_value b) k (Some v) False False s of
                     None \<Rightarrow> None
                   | Some s1 \<Rightarrow> returning v (Some (notify E (ob_dep b) s1))))))"

section \<open>Auxiliary notions for the statements\<close>

text \<open>
  The state in which the getter called by \<open>get\<close> returns or throws, and the state in which
  the \<open>finally\<close> block of \<open>get\<close> reaches \<open>popTarget()\<close>: the getter has run, a failure has
  been handled or is pending, and \<open>traverse\<close> has run for a deep watcher.
\<close>

definition ran :: "'d env \<Rightarrow> nat \<Rightarrow> 'd state \<Rightarrow> 'd state" where
  "ran E w s = perform (fst (getters E w (pushTarget (Some w) s))) (pushTarget (Some w) s)"

definition collected :: "'d env \<Rightarrow> nat \<Rightarrow> 'd state \<Rightarrow> 'd state" where
  "collected E w s =
     (let s1 = pushTarget (Some w) s;
          r = getters E w s1;
          s2 = perform (fst r) s1;
          wr = watchers s2 w;
          s3 = (case snd r of
                  Ok v \<Rightarrow> s2
                | Throw e \<Rightarrow> if user wr then handleError e (vm (watchers s1 w)) s2 else s2);
          v = (case snd r of Ok v \<Rightarrow> v | Throw e \<Rightarrow> VUndefined)
      in if deep (watchers s3 w) then touch (traverse E v s3) s3 else s3)"


text \<open>
  A step leaves the collection of watcher \<open>w\<close> alone: the watcher's fields, \<open>Dep.target\<close> and
  \<open>targetStack\<close> are as before, the watcher is in the lists it was in, and a list that held
  nobody twice still does. So does every run of a watcher other than \<open>w\<close> that a write
  sets off; a run of \<open>w\<close> itself does not.
\<close>

definition keeps :: "nat \<Rightarrow> 'd state \<Rightarrow> 'd state \<Rightarrow> bool" where
  "keeps w s t \<longleftrightarrow>
     watchers t w = watchers s w \<and> target t = target s \<and> targetStack t = targetStack s
     \<and> (\<forall>d. (w \<in> set (subs t d)) = (w \<in> set (subs s d))
            \<and> (distinct (subs s d) \<longrightarrow> distinct (subs t d)))"

text \<open>
  A getter's run in which every step other than a read leaves the collection of \<open>w\<close>
  alone, in the state in which the step is taken.
\<close>

fun quiet_run :: "nat \<Rightarrow> 'd act list \<Rightarrow> 'd state \<Rightarrow> bool" where
  "quiet_run w [] s = True"
| "quiet_run w (Reads d # as) s = quiet_run w as (dep_depend d s)"
| "quiet_run w (Does f # as) s = (keeps w s (f s) \<and> quiet_run w as (f s))"

text \<open>\<open>Dep.target\<close> is the top of \<open>targetStack\<close>, which \<open>pushTarget\<close> and \<open>popTarget\<close> maintain.\<close>

definition stack_ok :: "'d state \<Rightarrow> bool" where
  "stack_ok s \<longleftrightarrow> target s = (if targetStack s = [] then None else last (targetStack s))"


text \<open>
  The words of the spec for the pass of \<open>announce()\<close>: "It then calls \<open>update()\<close> on each
  subscriber in that fixed order"; a call that throws ends the pass.
\<close>

fun update_each :: "'d env \<Rightarrow> nat list \<Rightarrow> 'd state \<Rightarrow> 'd state \<times> unit res" where
  "update_each E [] s = (s, Ok ())"
| "update_each E (w # ws) s =
     (case update E w s of
        (s1, Throw e) \<Rightarrow> (s1, Throw e)
      | (s1, Ok u) \<Rightarrow> update_each E ws s1)"


text \<open>
  The invariant behind the subscriber lists: no list holds a watcher twice; a watcher is
  only in the lists of Deps whose id it has in \<open>depIds\<close> or \<open>newDepIds\<close>; the id sets are
  the ids of the two arrays; and only watchers that have been constructed are subscribed
  or active.
\<close>

definition subs_inv :: "'d state \<Rightarrow> bool" where
  "subs_inv s \<longleftrightarrow>
     (\<forall>d. distinct (subs s d))
     \<and> (\<forall>d w. w \<in> set (subs s d) \<longrightarrow>
            d \<in> depIds (watchers s w) \<union> newDepIds (watchers s w) \<and> w \<le> watcher_uid s)
     \<and> (\<forall>w. depIds (watchers s w) = set (deps (watchers s w))
            \<and> newDepIds (watchers s w) = set (newDeps (watchers s w)))
     \<and> (\<forall>w. target s = Some w \<longrightarrow> w \<le> watcher_uid s)
     \<and> (\<forall>w. Some w \<in> set (targetStack s) \<longrightarrow> w \<le> watcher_uid s)"


text \<open>A step, and the steps of the getters of an environment, that keep the invariant.\<close>

definition inv_step :: "('d state \<Rightarrow> 'd state) \<Rightarrow> bool" where
  "inv_step f \<longleftrightarrow> (\<forall>s. subs_inv s \<longrightarrow> subs_inv (f s) \<and> watcher_uid (f s) = watcher_uid s)"

definition inv_env :: "'d env \<Rightarrow> bool" where
  "inv_env E \<longleftrightarrow> (\<forall>w s f. Does f \<in> set (fst (getters E w s)) \<longrightarrow> inv_step f)"

text \<open>A step, and the steps of the getters of an environment, that leave \<open>targetStack\<close> alone.\<close>

definition bal_step :: "('d state \<Rightarrow> 'd state) \<Rightarrow> bool" where
  "bal_step f \<longleftrightarrow> (\<forall>s. targetStack (f s) = targetStack s)"

definition bal_env :: "'d env \<Rightarrow> bool" where
  "bal_env E \<longleftrightarrow> (\<forall>w s f. Does f \<in> set (fst (getters E w s)) \<longrightarrow> bal_step f)"

text \<open>The state of the module before anything is constructed.\<close>

definition init_state :: "'d \<Rightarrow> 'd state" where
  "init_state x =
     \<lparr>dep_uid = 0, subs = (\<lambda>d. []), target = None, targetStack = [], watcher_uid = 0,
      watchers = (\<lambda>w. \<lparr>vm = 0, deep = False, user = False, lazy = False, sync = False,
                         dirty = False, active = False, deps = [], newDeps = [],
                         depIds = {}, newDepIds = {}, wvalue = VUndefined\<rparr>),
      vms = (\<lambda>v. \<lparr>vm_watchers = [], isBeingDestroyed = False\<rparr>),
      queue = [], handled = [], warned = 0, sdata = x\<rparr>"


text \<open>
  What a getter may do to the state of the module besides reading: work on \<open>sdata\<close>, write
  reactive fields (\<open>notify\<close>), evaluate a lazy watcher that exists (as the getter of a
  computed property does), tear a watcher down and make Deps, with getters that do the
  same, and any sequence of these.
\<close>

inductive made :: "('d state \<Rightarrow> 'd state) \<Rightarrow> bool" where
  m_sdata: "made (\<lambda>s. s\<lparr>sdata := g (sdata s)\<rparr>)"
| m_seq: "made f \<Longrightarrow> made g \<Longrightarrow> made (\<lambda>s. g (f s))"
| m_new_Dep: "made (\<lambda>s. snd (new_Dep s))"
| m_teardown: "made (\<lambda>s. teardown w s)"
| m_notify: "(\<And>w s f. Does f \<in> set (fst (getters E w s)) \<Longrightarrow> made f) \<Longrightarrow>
     made (\<lambda>s. fst (notify E d s))"
| m_evaluate: "(\<And>w s f. Does f \<in> set (fst (getters E w s)) \<Longrightarrow> made f) \<Longrightarrow>
     made (\<lambda>s. if 0 < w \<and> w \<le> watcher_uid s then fst (evaluate E w s) else s)"

definition calls_made :: "'d env \<Rightarrow> bool" where
  "calls_made E \<longleftrightarrow> (\<forall>w s f. Does f \<in> set (fst (getters E w s)) \<longrightarrow> made f)"

text \<open>
  The states the module reaches from there through the constructors and the methods of
  \<open>Dep\<close> and \<open>Watcher\<close>, on Deps and watchers that exist, with getters that act on the module
  as above; the steps of \<open>get\<close> are there one by one as well, so that the states inside a
  run are reached. \<open>addSub\<close> and \<open>removeSub\<close> are called by \<open>addDep\<close>, \<open>cleanupDeps\<close> and
  \<open>teardown\<close> only, as in the sources.
\<close>

inductive reachable :: "'d env \<Rightarrow> 'd state \<Rightarrow> bool" for E :: "'d env" where
  r_init: "reachable E (init_state x)"
| r_new_Dep: "reachable E s \<Longrightarrow> reachable E (snd (new_Dep s))"
| r_new_Watcher: "reachable E s \<Longrightarrow> calls_made E \<Longrightarrow>
     reachable E (fst (snd (new_Watcher E v o_deep o_user o_lazy o_sync s)))"
| r_get: "reachable E s \<Longrightarrow> calls_made E \<Longrightarrow> 0 < w \<Longrightarrow> w \<le> watcher_uid s \<Longrightarrow>
     reachable E (fst (get E w s))"
| r_run: "reachable E s \<Longrightarrow> calls_made E \<Longrightarrow> 0 < w \<Longrightarrow> w \<le> watcher_uid s \<Longrightarrow>
     reachable E (fst (run E w s))"
| r_update: "reachable E s \<Longrightarrow> calls_made E \<Longrightarrow> 0 < w \<Longrightarrow> w \<le> watcher_uid s \<Longrightarrow>
     reachable E (fst (update E w s))"
| r_evaluate: "reachable E s \<Longrightarrow> calls_made E \<Longrightarrow> 0 < w \<Longrightarrow> w \<le> watcher_uid s \<Longrightarrow>
     reachable E (fst (evaluate E w s))"
| r_watcher_depend: "reachable E s \<Longrightarrow> 0 < w \<Longrightarrow> w \<le> watcher_uid s \<Longrightarrow> reachable E (watcher_depend w s)"
| r_teardown: "reachable E s \<Longrightarrow> 0 < w \<Longrightarrow> w \<le> watcher_uid s \<Longrightarrow> reachable E (teardown w s)"
| r_dep_depend: "reachable E s \<Longrightarrow> d < dep_uid s \<Longrightarrow> reachable E (dep_depend d s)"
| r_notify: "reachable E s \<Longrightarrow> calls_made E \<Longrightarrow> d < dep_uid s \<Longrightarrow> reachable E (fst (notify E d s))"
| r_pushTarget_none: "reachable E s \<Longrightarrow> reachable E (pushTarget None s)"
| r_pushTarget: "reachable E s \<Longrightarrow> 0 < w \<Longrightarrow> w \<le> watcher_uid s \<Longrightarrow> reachable E (pushTarget (Some w) s)"
| r_popTarget: "reachable E s \<Longrightarrow> reachable E (popTarget s)"
| r_cleanupDeps: "reachable E s \<Longrightarrow> 0 < w \<Longrightarrow> w \<le> watcher_uid s \<Longrightarrow> reachable E (cleanupDeps w s)"

subsection \<open>Notions for the observer\<close>

text \<open>
  The value of a reactive field, as \<open>reactiveGetter\<close> and \<open>reactiveSetter\<close> compute it:
  \<open>getter ? getter.call(obj) : val\<close>.
\<close>

definition field_value :: "'u hstate \<Rightarrow> nat \<Rightarrow> val" where
  "field_value s d =
     (case getter (closures (sdata s) d) of
        Some g \<Rightarrow> g (ustate (sdata s))
      | None \<Rightarrow> cval (closures (sdata s) d))"

text \<open>The test \<open>getter && !setter\<close> of \<open>reactiveSetter\<close>.\<close>

definition getter_only :: "'u closure \<Rightarrow> bool" where
  "getter_only c \<longleftrightarrow> getter c \<noteq> None \<and> setter c = None"

text \<open>
  The state of \<open>reactiveSetter\<close> after the call of \<open>customSetter\<close>, which a build that is
  not a production build makes when one was given.
\<close>

definition custom_called :: "'u henv \<Rightarrow> nat \<Rightarrow> 'u hstate \<Rightarrow> 'u hstate" where
  "custom_called E d s =
     (if \<not> production E \<and> customSetter (closures (sdata s) d)
      then s\<lparr>sdata := (sdata s)\<lparr>customSetterCalls := customSetterCalls (sdata s) @ [d]\<rparr>\<rparr>
      else s)"

text \<open>
  The state of \<open>reactiveSetter\<close> after the new value has been stored: by
  \<open>setter.call(obj, newVal)\<close> where the property had a setter, by \<open>val = newVal\<close> otherwise.
\<close>

definition stored :: "'u henv \<Rightarrow> nat \<Rightarrow> val \<Rightarrow> 'u hstate \<Rightarrow> 'u hstate" where
  "stored E d newVal s =
     (case setter (closures (sdata s) d) of
        Some st \<Rightarrow>
          (custom_called E d s)\<lparr>sdata := (sdata (custom_called E d s))
             \<lparr>ustate := st newVal (ustate (sdata s))\<rparr>\<rparr>
      | None \<Rightarrow> upd_closure d (\<lambda>x. x\<lparr>cval := newVal\<rparr>) (custom_called E d s))"

text \<open>
  What a run of \<open>observe\<close> leaves as it is: the objects apart from their properties and
  \<open>vmCount\<close>, an Observer once it is there, the closures and subscribers of the Deps that
  existed, and everything of the watchers.
\<close>

definition obs_frame :: "'u hstate \<Rightarrow> 'u hstate \<Rightarrow> bool" where
  "obs_frame s t \<longleftrightarrow>
     length (objs t) = length (objs s)
     \<and> (\<forall>a. kind (objs t ! a) = kind (objs s ! a)
            \<and> extensible (objs t ! a) = extensible (objs s ! a)
            \<and> isVue (objs t ! a) = isVue (objs s ! a)
            \<and> elems (objs t ! a) = elems (objs s ! a)
            \<and> proto_keys (objs t ! a) = proto_keys (objs s ! a)
            \<and> (\<forall>b. ob (objs s ! a) = Some b \<longrightarrow>
                  (\<exists>b'. ob (objs t ! a) = Some b' \<and> ob_dep b' = ob_dep b \<and> ob_value b' = ob_value b)))
     \<and> dep_uid s \<le> dep_uid t
     \<and> (\<forall>d. d < dep_uid s \<longrightarrow> closures (sdata t) d = closures (sdata s) d \<and> subs t d = subs s d)
     \<and> ustate (sdata t) = ustate (sdata s)
     \<and> shouldObserve (sdata t) = shouldObserve (sdata s)
     \<and> objectProto (sdata t) = objectProto (sdata s)
     \<and> customSetterCalls (sdata t) = customSetterCalls (sdata s)
     \<and> watchers t = watchers s \<and> target t = target s \<and> targetStack t = targetStack s
     \<and> watcher_uid t = watcher_uid s \<and> vms t = vms s \<and> queue t = queue s
     \<and> handled t = handled s \<and> warned t = warned s"

text \<open>
  Outside the addresses in \<open>X\<close>, an object that is still without an Observer is as it
  was, and an object that had one has the properties it had.
\<close>

definition touched_only :: "nat set \<Rightarrow> 'u hstate \<Rightarrow> 'u hstate \<Rightarrow> bool" where
  "touched_only X s t \<longleftrightarrow>
     (\<forall>b. b \<notin> X \<longrightarrow>
        (ob (objs t ! b) = None \<longrightarrow> objs t ! b = objs s ! b)
        \<and> (ob (objs s ! b) \<noteq> None \<longrightarrow> props (objs t ! b) = props (objs s ! b)))"





section \<open>Example states\<close>

text \<open>
  A getter that reads the field behind Dep 0 on its first run and the field behind Dep 1
  from then on, and the state after the construction of two Deps and of a watcher with
  that getter.
\<close>

definition E1 :: "unit env" where
  "E1 = \<lparr>production = False, async = True, serverRendering = False,
         getters = (\<lambda>w s. if 0 \<in> depIds (watchers s w) then ([Reads 1], Ok (VNum 2))
                            else ([Reads 0], Ok (VNum 1))),
         traverse = (\<lambda>v s. []),
         cbs = (\<lambda>w v old x. (x, Ok ()))\<rparr>"

definition ex_run1 :: "unit state" where
  "ex_run1 = fst (snd (new_Watcher E1 0 False False False False (snd (new_Dep (snd (new_Dep (init_state ())))))))"


text \<open>
  Five watchers subscribed to Dep 0, in the order 5, 4, 3, 2, 1: watcher 1 is synchronous,
  4 is lazy, 5 is a user watcher, 3 belongs to a component that is being destroyed.
  Every getter reads the field behind Dep 1 and returns 7.
\<close>

definition ex_watcher :: "nat \<Rightarrow> bool \<Rightarrow> bool \<Rightarrow> bool \<Rightarrow> nat list \<Rightarrow> watcher" where
  "ex_watcher v us lz sy ds =
     \<lparr>vm = v, deep = False, user = us, lazy = lz, sync = sy, dirty = False, active = True,
      deps = ds, newDeps = [], depIds = set ds, newDepIds = {}, wvalue = VUndefined\<rparr>"

definition ex_state :: "unit state" where
  "ex_state =
     \<lparr>dep_uid = 2, subs = (\<lambda>d. [])(0 := [5, 4, 3, 2, 1]), target = None, targetStack = [],
      watcher_uid = 5,
      watchers = (\<lambda>w. ex_watcher 0 False False False [])
        (1 := ex_watcher 0 False False True [0],
         2 := ex_watcher 0 False False False [0],
         3 := ex_watcher 1 False False False [0],
         4 := ex_watcher 0 False True False [0],
         5 := ex_watcher 0 True False False [0]),
      vms = (\<lambda>v. \<lparr>vm_watchers = [], isBeingDestroyed = False\<rparr>)
        (0 := \<lparr>vm_watchers = [1, 2, 4, 5], isBeingDestroyed = False\<rparr>,
         1 := \<lparr>vm_watchers = [3], isBeingDestroyed = True\<rparr>),
      queue = [], handled = [], warned = 0, sdata = ()\<rparr>"

definition E_dev :: "unit env" where
  "E_dev = \<lparr>production = False, async = False, serverRendering = False,
            getters = (\<lambda>w s. ([Reads 1], Ok (VNum 7))),
            traverse = (\<lambda>v s. []),
            cbs = (\<lambda>w v old x. (x, Ok ()))\<rparr>"

definition E_thr :: "unit env" where
  "E_thr = E_dev\<lparr>getters := (\<lambda>w s. ([Reads 1], Throw (UserError ''boom'')))\<rparr>"


text \<open>The same state while watcher 2 is being evaluated.\<close>

definition ex_nested :: "unit state" where
  "ex_nested = pushTarget (Some 2) ex_state"

text \<open>
  A getter that reads the field \<open>a\<close> (Dep 0), writes 1 to the field \<open>b\<close> (Dep 1) and reads
  \<open>b\<close>; \<open>sdata\<close> is the value of \<open>b\<close>. Where \<open>b\<close> holds 1 already the write does nothing. The
  runs that the write sets off find \<open>b\<close> written, so their getters are those of \<open>E_in\<close>.
  Watcher 1 is synchronous and holds \<open>a\<close> and \<open>b\<close>; watcher 2 is not and holds \<open>b\<close> and a
  third field (Dep 2).
\<close>

definition E_in :: "nat env" where
  "E_in = \<lparr>production = False, async = True, serverRendering = False,
           getters = (\<lambda>w s. ([Reads 0, Reads 1], Ok (VNum 1))),
           traverse = (\<lambda>v s. []),
           cbs = (\<lambda>w v old x. (x, Ok ()))\<rparr>"

definition E_re :: "nat env" where
  "E_re = E_in\<lparr>getters := (\<lambda>w s.
       if sdata s = 1 then ([Reads 0, Reads 1], Ok (VNum 1))
       else ([Reads 0, Does (\<lambda>t. fst (notify E_in 1 (t\<lparr>sdata := 1\<rparr>))), Reads 1], Ok (VNum 1)))\<rparr>"

definition ex_re :: "nat state" where
  "ex_re =
     \<lparr>dep_uid = 3, subs = (\<lambda>d. [])(0 := [1], 1 := [1, 2], 2 := [2]), target = None,
      targetStack = [], watcher_uid = 2,
      watchers = (\<lambda>w. ex_watcher 0 False False False [])
        (1 := ex_watcher 0 False False True [0, 1],
         2 := ex_watcher 0 False False False [1, 2]),
      vms = (\<lambda>v. \<lparr>vm_watchers = [], isBeingDestroyed = False\<rparr>)
        (0 := \<lparr>vm_watchers = [1, 2], isBeingDestroyed = False\<rparr>),
      queue = [], handled = [], warned = 0, sdata = 0\<rparr>"

subsection \<open>A root data object\<close>

text \<open>
  A heap of five objects: a plain object with the data properties \<open>a\<close> and \<open>b\<close> (\<open>b\<close> holding
  the second object), an accessor property \<open>g\<close> with a getter only and an accessor property
  \<open>gs\<close> with a getter and a setter, both on the user's state; a plain object with the
  property \<open>c\<close>; an array holding a number and the second object; a Vue instance; a VNode.
\<close>

definition data_prop :: "val \<Rightarrow> 'u property" where
  "data_prop v = \<lparr>pslot = Data v, enumerable = True, configurable = True\<rparr>"

definition reactive_prop :: "nat \<Rightarrow> 'u property" where
  "reactive_prop d = \<lparr>pslot = Reactive d, enumerable = True, configurable = True\<rparr>"

definition ex_obj ::
  "kind \<Rightarrow> bool \<Rightarrow> observer option \<Rightarrow> (key \<times> 'u property) list \<Rightarrow> val list \<Rightarrow> 'u obj" where
  "ex_obj kd vue b ps es =
     \<lparr>kind = kd, extensible = True, isVue = vue, ob = b, props = ps, elems = es,
      proto_keys = [Name ''toString'', Name ''hasOwnProperty'']\<rparr>"

definition ex_closure ::
  "val \<Rightarrow> nat option \<Rightarrow> ('u \<Rightarrow> val) option \<Rightarrow> (val \<Rightarrow> 'u \<Rightarrow> 'u) option \<Rightarrow> bool \<Rightarrow> 'u closure" where
  "ex_closure v c g st sh =
     \<lparr>cval = v, childOb = c, getter = g, setter = st, shallow = sh, customSetter = False\<rparr>"

definition ex_hp :: "val hp" where
  "ex_hp =
     \<lparr>heap =
        [ex_obj PlainObject False None
           [(Name ''a'', data_prop (VNum 1)),
            (Name ''b'', data_prop (VRef 1)),
            (Name ''g'', \<lparr>pslot = Accessor (Some (\<lambda>u. u)) None, enumerable = True, configurable = True\<rparr>),
            (Name ''gs'', \<lparr>pslot = Accessor (Some (\<lambda>u. u)) (Some (\<lambda>v u. v)),
                           enumerable = True, configurable = True\<rparr>)] [],
         ex_obj PlainObject False None [(Name ''c'', data_prop (VNum 2))] [],
         ex_obj ArrayObject False None [] [VNum 1, VRef 1],
         ex_obj PlainObject True None [] [],
         ex_obj VNodeObject False None [] []],
      closures = (\<lambda>d. ex_closure VUndefined None None None False),
      ustate = VNum 5, shouldObserve = True, customSetterCalls = [],
      objectProto = [Name ''toString'', Name ''hasOwnProperty'']\<rparr>"

text \<open>
  A development build with \<open>config.async\<close> on, and getters that read the fields behind Deps
  1, 5 and 7.
\<close>

definition E_h :: "val hp env" where
  "E_h = \<lparr>production = False, async = True, serverRendering = False,
          getters = (\<lambda>w s. ([Reads 1, Reads 5, Reads 7], Ok (VNum 0))),
          traverse = (\<lambda>v s. []),
          cbs = (\<lambda>w v old x. (x, Ok ()))\<rparr>"

text \<open>The state after \<open>observe(data, true)\<close> on the first object.\<close>

definition ex_h1 :: "val hstate" where
  "ex_h1 = fst (the (observe E_h 3 (VRef 0) True (init_state ex_hp)))"

text \<open>
  The state after that call, after \<open>defineReactive(vm, 'attrs', null, null, true)\<close> on the
  Vue instance, and after the construction of a watcher that has read \<open>a\<close>, \<open>g\<close> and \<open>attrs\<close>:
  as the calls build it, and written out (\<open>ex_h3_built\<close> below compares the two).
\<close>

definition ex_h2 :: "val hstate" where
  "ex_h2 = the (defineReactive E_h 3 3 (Name ''attrs'') (Some VNull) False True ex_h1)"

definition ex_h3_run :: "val hstate" where
  "ex_h3_run = fst (snd (new_Watcher E_h 0 False False False False ex_h2))"

definition ex_hp3 :: "val hp" where
  "ex_hp3 =
     ex_hp\<lparr>heap :=
        [ex_obj PlainObject False (Some \<lparr>ob_value = 0, ob_dep = 0, vmCount = 1\<rparr>)
           [(Name ''a'', reactive_prop 1), (Name ''b'', reactive_prop 2),
            (Name ''g'', reactive_prop 5), (Name ''gs'', reactive_prop 6)] [],
         ex_obj PlainObject False (Some \<lparr>ob_value = 1, ob_dep = 3, vmCount = 0\<rparr>)
           [(Name ''c'', reactive_prop 4)] [],
         ex_obj ArrayObject False None [] [VNum 1, VRef 1],
         ex_obj PlainObject True None [(Name ''attrs'', reactive_prop 7)] [],
         ex_obj VNodeObject False None [] []],
      closures := (\<lambda>d. ex_closure VUndefined None None None False)
        (1 := ex_closure (VNum 1) None None None False,
         2 := ex_closure (VRef 1) (Some 3) None None False,
         4 := ex_closure (VNum 2) None None None False,
         5 := ex_closure VUndefined None (Some (\<lambda>u. u)) None False,
         6 := ex_closure (VNum 5) None (Some (\<lambda>u. u)) (Some (\<lambda>v u. v)) False,
         7 := ex_closure VNull None None None True)\<rparr>"

definition ex_h3 :: "val hstate" where
  "ex_h3 =
     (init_state ex_hp3)
       \<lparr>dep_uid := 8,
        subs := (\<lambda>d. [])(1 := [1], 5 := [1], 7 := [1]),
        watcher_uid := 1,
        watchers := (watchers (init_state ex_hp3))
          (1 := \<lparr>vm = 0, deep = False, user = False, lazy = False, sync = False, dirty = False,
                 active = True, deps = [1, 5, 7], newDeps = [], depIds = {1, 5, 7},
                 newDepIds = {}, wvalue = VNum 0\<rparr>),
        vms := (vms (init_state ex_hp3))(0 := \<lparr>vm_watchers = [1], isBeingDestroyed = False\<rparr>)\<rparr>"


section \<open>Dependency collection\<close>

lemma addDep_target [simp]: "target (addDep w d s) = target s"
  by (simp add: addDep_def addSub_def Let_def)

lemma fold_addDep_target: "target (fold (addDep w) ds s) = target s"
  by (induction ds arbitrary: s) simp_all

lemma touch_fold: "target s = Some w \<Longrightarrow> touch ds s = fold (addDep w) ds s"
  unfolding touch_def
proof (induction ds arbitrary: s)
  case Nil
  then show ?case by simp
next
  case (Cons d ds)
  then show ?case by (simp add: dep_depend_def)
qed

lemma touch_None: "target s = None \<Longrightarrow> touch ds s = s"
  unfolding touch_def by (induction ds) (simp_all add: dep_depend_def)

text \<open>what addDep does to the watcher\<close>
lemma addDep_watcher_self:
  "watchers (addDep w d s) w =
     (if d \<in> newDepIds (watchers s w) then watchers s w
      else (watchers s w)\<lparr>newDeps := newDeps (watchers s w) @ [d],
                           newDepIds := insert d (newDepIds (watchers s w))\<rparr>)"
  by (simp add: addDep_def addSub_def Let_def)

lemma addDep_watcher_other: "w' \<noteq> w \<Longrightarrow> watchers (addDep w d s) w' = watchers s w'"
  by (simp add: addDep_def addSub_def Let_def)

lemma addDep_subs:
  "subs (addDep w d s) d' =
     (if d' = d \<and> d \<notin> newDepIds (watchers s w) \<and> d \<notin> depIds (watchers s w)
      then subs s d' @ [w] else subs s d')"
  by (simp add: addDep_def addSub_def Let_def)

lemma fold_addDep_watcher:
  "newDepIds (watchers (fold (addDep w) ds s) w) = newDepIds (watchers s w) \<union> set ds
   \<and> set (newDeps (watchers (fold (addDep w) ds s) w)) = set (newDeps (watchers s w)) \<union> (set ds - newDepIds (watchers s w))
   \<and> depIds (watchers (fold (addDep w) ds s) w) = depIds (watchers s w)
   \<and> deps (watchers (fold (addDep w) ds s) w) = deps (watchers s w)"
proof (induction ds arbitrary: s)
  case Nil
  then show ?case by simp
next
  case (Cons d ds)
  show ?case
    by (simp add: Cons addDep_watcher_self) auto
qed

lemma fold_addDep_subs_mem:
  "x \<in> set (subs (fold (addDep w) ds s) d) \<longleftrightarrow>
     x \<in> set (subs s d) \<or>
     (x = w \<and> d \<in> set ds \<and> d \<notin> newDepIds (watchers s w) \<and> d \<notin> depIds (watchers s w))"
proof (induction ds arbitrary: s)
  case Nil
  then show ?case by simp
next
  case (Cons a ds)
  show ?case
    by (simp add: Cons addDep_subs addDep_watcher_self) (auto simp: addDep_watcher_self)
qed

lemma removeSub_proj [simp]:
  "watchers (removeSub d w s) = watchers s"
  "target (removeSub d w s) = target s"
  "targetStack (removeSub d w s) = targetStack s"
  "subs (removeSub d w s) d' = (if d' = d then remove1 w (subs s d) else subs s d')"
  by (simp_all add: removeSub_def remove_arr_def)

lemma funpow_remove1_distinct: "distinct xs \<Longrightarrow> distinct ((remove1 w ^^ k) xs)"
  by (induction k) simp_all

lemma funpow_remove1_other: "x \<noteq> w \<Longrightarrow> x \<in> set ((remove1 w ^^ k) xs) \<longleftrightarrow> x \<in> set xs"
  by (induction k) simp_all

lemma funpow_remove1_subset: "set ((remove1 w ^^ k) xs) \<subseteq> set xs"
proof (induction k)
  case 0
  then show ?case by simp
next
  case (Suc k)
  have "set (remove1 w ((remove1 w ^^ k) xs)) \<subseteq> set ((remove1 w ^^ k) xs)"
    by (rule set_remove1_subset)
  with Suc show ?case by simp
qed

lemma funpow_remove1_gone: "distinct xs \<Longrightarrow> 0 < k \<Longrightarrow> w \<notin> set ((remove1 w ^^ k) xs)"
proof (induction k)
  case 0
  then show ?case by simp
next
  case (Suc k)
  have "distinct ((remove1 w ^^ k) xs)" using Suc.prems(1) by (rule funpow_remove1_distinct)
  then show ?case by simp
qed

lemma cleanup_walk_watchers [simp]: "watchers (cleanup_walk w n s) = watchers s"
  by (induction n arbitrary: s) (simp_all add: Let_def)

lemma cleanup_walk_target [simp]: "target (cleanup_walk w n s) = target s"
  by (induction n arbitrary: s) (simp_all add: Let_def)

lemma cleanup_walk_targetStack [simp]: "targetStack (cleanup_walk w n s) = targetStack s"
  by (induction n arbitrary: s) (simp_all add: Let_def)

lemma cleanup_walk_subs:
  "n \<le> length (deps (watchers s w)) \<Longrightarrow>
   subs (cleanup_walk w n s) d =
     (remove1 w ^^ count_list (filter (\<lambda>x. x \<notin> newDepIds (watchers s w)) (take n (deps (watchers s w)))) d)
       (subs s d)"
proof (induction n arbitrary: s)
  case 0
  then show ?case by simp
next
  case (Suc n)
  let ?s' = "if deps (watchers s w) ! n \<notin> newDepIds (watchers s w)
             then removeSub (deps (watchers s w) ! n) w s else s"
  have w': "watchers ?s' = watchers s" by simp
  have n: "n < length (deps (watchers s w))" using Suc.prems by simp
  have "subs (cleanup_walk w (Suc n) s) d = subs (cleanup_walk w n ?s') d"
    by (simp add: Let_def)
  also have "\<dots> = (remove1 w ^^ count_list (filter (\<lambda>x. x \<notin> newDepIds (watchers s w)) (take n (deps (watchers s w)))) d) (subs ?s' d)"
    using Suc.IH [of ?s'] n by (simp only: w')
  finally show ?case using n
    by (simp add: take_Suc_conv_app_nth funpow_swap1)
qed

lemma teardown_walk_watchers [simp]: "watchers (teardown_walk w n s) = watchers s"
  by (induction n arbitrary: s) simp_all

lemma teardown_walk_subs:
  "n \<le> length (deps (watchers s w)) \<Longrightarrow>
   subs (teardown_walk w n s) d =
     (remove1 w ^^ count_list (take n (deps (watchers s w))) d) (subs s d)"
proof (induction n arbitrary: s)
  case 0
  then show ?case by simp
next
  case (Suc n)
  let ?s' = "removeSub (deps (watchers s w) ! n) w s"
  have n: "n < length (deps (watchers s w))" using Suc.prems by simp
  have "subs (teardown_walk w (Suc n) s) d = subs (teardown_walk w n ?s') d"
    by simp
  also have "\<dots> = (remove1 w ^^ count_list (take n (deps (watchers s w))) d) (subs ?s' d)"
    using Suc.IH [of ?s'] n by simp
  finally show ?case using n
    by (simp add: take_Suc_conv_app_nth funpow_swap1)
qed

lemma pushTarget_proj [simp]:
  "watchers (pushTarget t s) = watchers s"
  "subs (pushTarget t s) = subs s"
  "target (pushTarget t s) = t"
  "targetStack (pushTarget t s) = targetStack s @ [t]"
  by (simp_all add: pushTarget_def)

lemma popTarget_proj [simp]:
  "watchers (popTarget s) = watchers s"
  "subs (popTarget s) = subs s"
  "targetStack (popTarget s) = butlast (targetStack s)"
  "target (popTarget s) = (if butlast (targetStack s) = [] then None else last (butlast (targetStack s)))"
  by (simp_all add: popTarget_def Let_def)

lemma handleError_proj [simp]:
  "watchers (handleError e v s) = watchers s"
  "subs (handleError e v s) = subs s"
  "target (handleError e v s) = target s"
  "targetStack (handleError e v s) = targetStack s"
  "handled (handleError e v s) = handled s @ [(e, v)]"
  by (simp_all add: handleError_def)

lemma addDep_handleError: "addDep w d (handleError e v s) = handleError e v (addDep w d s)"
  by (simp add: addDep_def addSub_def handleError_def Let_def)

lemma fold_addDep_handleError:
  "fold (addDep w) ds (handleError e v s) = handleError e v (fold (addDep w) ds s)"
  by (induction ds arbitrary: s) (simp_all add: addDep_handleError)

lemma addDep_targetStack [simp]: "targetStack (addDep w d s) = targetStack s"
  by (simp add: addDep_def addSub_def Let_def)

lemma fold_addDep_targetStack [simp]: "targetStack (fold (addDep w) ds s) = targetStack s"
  by (induction ds arbitrary: s) simp_all

lemma fold_addDep_other: "w' \<noteq> w \<Longrightarrow> watchers (fold (addDep w) ds s) w' = watchers s w'"
  by (induction ds arbitrary: s) (simp_all add: addDep_watcher_other)

lemma fold_addDep_subs_same:
  "d \<notin> set ds \<or> d \<in> depIds (watchers s w) \<or> d \<in> newDepIds (watchers s w) \<Longrightarrow>
   subs (fold (addDep w) ds s) d = subs s d"
proof (induction ds arbitrary: s)
  case Nil
  then show ?case by simp
next
  case (Cons a ds)
  have "subs (fold (addDep w) ds (addDep w a s)) d = subs (addDep w a s) d"
    using Cons.prems by (intro Cons.IH) (auto simp: addDep_watcher_self)
  moreover have "subs (addDep w a s) d = subs s d"
    using Cons.prems by (auto simp: addDep_subs)
  ultimately show ?case by simp
qed

lemma get_collected: "fst (get E w s) = cleanupDeps w (popTarget (collected E w s))"
  by (simp add: get_def collected_def Let_def)

lemma perform_Reads: "perform (map Reads ds) s = touch ds s"
  unfolding touch_def by (induction ds arbitrary: s) simp_all

lemma reads_Reads [simp]: "reads (map Reads ds) = ds"
  by (induction ds) simp_all

lemma quiet_run_Reads [simp]: "quiet_run w (map Reads ds) s"
  by (induction ds arbitrary: s) simp_all

lemma perform_quiet:
  "quiet_run w as s \<Longrightarrow> target s = Some w \<Longrightarrow>
   newDepIds (watchers (perform as s) w) = newDepIds (watchers s w) \<union> set (reads as)
   \<and> set (newDeps (watchers (perform as s) w))
       = set (newDeps (watchers s w)) \<union> (set (reads as) - newDepIds (watchers s w))
   \<and> depIds (watchers (perform as s) w) = depIds (watchers s w)
   \<and> deps (watchers (perform as s) w) = deps (watchers s w)
   \<and> user (watchers (perform as s) w) = user (watchers s w)
   \<and> deep (watchers (perform as s) w) = deep (watchers s w)
   \<and> vm (watchers (perform as s) w) = vm (watchers s w)
   \<and> target (perform as s) = Some w
   \<and> targetStack (perform as s) = targetStack s
   \<and> (\<forall>d. w \<in> set (subs (perform as s) d) \<longleftrightarrow>
          w \<in> set (subs s d)
          \<or> (d \<in> set (reads as) \<and> d \<notin> newDepIds (watchers s w) \<and> d \<notin> depIds (watchers s w)))
   \<and> (\<forall>d. d \<notin> set (reads as) \<longrightarrow> distinct (subs s d) \<longrightarrow> distinct (subs (perform as s) d))"
proof (induction w as s rule: quiet_run.induct)
  case (1 w s)
  then show ?case by simp
next
  case (2 w d as s)
  have e: "dep_depend d s = addDep w d s" using "2.prems" by (simp add: dep_depend_def)
  have q: "quiet_run w as (addDep w d s)" using "2.prems" e by simp
  have t: "target (addDep w d s) = Some w" using "2.prems" by simp
  have IH: "newDepIds (watchers (perform as (addDep w d s)) w)
        = newDepIds (watchers (addDep w d s) w) \<union> set (reads as)
   \<and> set (newDeps (watchers (perform as (addDep w d s)) w))
       = set (newDeps (watchers (addDep w d s) w))
         \<union> (set (reads as) - newDepIds (watchers (addDep w d s) w))
   \<and> depIds (watchers (perform as (addDep w d s)) w) = depIds (watchers (addDep w d s) w)
   \<and> deps (watchers (perform as (addDep w d s)) w) = deps (watchers (addDep w d s) w)
   \<and> user (watchers (perform as (addDep w d s)) w) = user (watchers (addDep w d s) w)
   \<and> deep (watchers (perform as (addDep w d s)) w) = deep (watchers (addDep w d s) w)
   \<and> vm (watchers (perform as (addDep w d s)) w) = vm (watchers (addDep w d s) w)
   \<and> target (perform as (addDep w d s)) = Some w
   \<and> targetStack (perform as (addDep w d s)) = targetStack (addDep w d s)
   \<and> (\<forall>x. w \<in> set (subs (perform as (addDep w d s)) x) \<longleftrightarrow>
          w \<in> set (subs (addDep w d s) x)
          \<or> (x \<in> set (reads as) \<and> x \<notin> newDepIds (watchers (addDep w d s) w)
              \<and> x \<notin> depIds (watchers (addDep w d s) w)))
   \<and> (\<forall>x. x \<notin> set (reads as) \<longrightarrow> distinct (subs (addDep w d s) x) \<longrightarrow>
          distinct (subs (perform as (addDep w d s)) x))"
    using "2.IH" [OF q [folded e]] t unfolding e by simp
  have p: "perform (Reads d # as) s = perform as (addDep w d s)" by (simp add: e)
  show ?case
  proof (cases "d \<in> newDepIds (watchers s w)")
    case True
    have a: "watchers (addDep w d s) w = watchers s w" "subs (addDep w d s) = subs s"
      using True by (simp_all add: addDep_watcher_self addDep_subs fun_eq_iff)
    show ?thesis
      unfolding p using IH True unfolding a by auto
  next
    case False
    have a: "watchers (addDep w d s) w =
        (watchers s w)\<lparr>newDeps := newDeps (watchers s w) @ [d],
                       newDepIds := insert d (newDepIds (watchers s w))\<rparr>"
      using False by (simp add: addDep_watcher_self)
    have b: "subs (addDep w d s) x =
        (if x = d \<and> d \<notin> depIds (watchers s w) then subs s x @ [w] else subs s x)" for x
      using False by (simp add: addDep_subs)
    have 1: "newDepIds (watchers (perform as (addDep w d s)) w)
        = newDepIds (watchers s w) \<union> set (reads (Reads d # as))"
      using IH by (simp add: a)
    have 2: "set (newDeps (watchers (perform as (addDep w d s)) w))
       = set (newDeps (watchers s w)) \<union> (set (reads (Reads d # as)) - newDepIds (watchers s w))"
      using IH False by (simp add: a) blast
    have 3: "depIds (watchers (perform as (addDep w d s)) w) = depIds (watchers s w)"
      "deps (watchers (perform as (addDep w d s)) w) = deps (watchers s w)"
      "user (watchers (perform as (addDep w d s)) w) = user (watchers s w)"
      "deep (watchers (perform as (addDep w d s)) w) = deep (watchers s w)"
      "vm (watchers (perform as (addDep w d s)) w) = vm (watchers s w)"
      "target (perform as (addDep w d s)) = Some w"
      "targetStack (perform as (addDep w d s)) = targetStack s"
      using IH by (simp_all add: a)
    have 4: "w \<in> set (subs (perform as (addDep w d s)) x) \<longleftrightarrow>
          w \<in> set (subs s x)
          \<or> (x \<in> set (reads (Reads d # as)) \<and> x \<notin> newDepIds (watchers s w)
              \<and> x \<notin> depIds (watchers s w))" for x
    proof -
      have "w \<in> set (subs (perform as (addDep w d s)) x) \<longleftrightarrow>
          w \<in> set (subs (addDep w d s) x)
          \<or> (x \<in> set (reads as) \<and> x \<notin> insert d (newDepIds (watchers s w))
              \<and> x \<notin> depIds (watchers s w))"
        using IH by (simp add: a)
      then show ?thesis using False by (auto simp: b)
    qed
    have 5: "distinct (subs (perform as (addDep w d s)) x)"
      if "x \<notin> set (reads (Reads d # as))" "distinct (subs s x)" for x
    proof -
      have "x \<noteq> d" "x \<notin> set (reads as)" using that(1) by simp_all
      then show ?thesis using IH that(2) by (simp add: b)
    qed
    show ?thesis
      unfolding p using 1 2 3 4 5 by blast
  qed
next
  case (3 w f as s)
  have k: "keeps w s (f s)" and q: "quiet_run w as (f s)" using "3.prems" by simp_all
  have t: "target (f s) = Some w" using k "3.prems" by (simp add: keeps_def)
  note IH = "3.IH" [OF q t]
  have kw: "watchers (f s) w = watchers s w" "targetStack (f s) = targetStack s"
    "\<And>d. (w \<in> set (subs (f s) d)) = (w \<in> set (subs s d))"
    "\<And>d. distinct (subs s d) \<Longrightarrow> distinct (subs (f s) d)"
    using k by (simp_all add: keeps_def)
  show ?case
    using IH kw(4) unfolding kw(1,2,3) by simp
qed

lemma collected_quiet:
  assumes q: "quiet_run w (fst (getters E w (pushTarget (Some w) s))) (pushTarget (Some w) s)"
  shows "newDepIds (watchers (collected E w s) w) = newDepIds (watchers s w) \<union> set (fired E w s)"
    and "set (newDeps (watchers (collected E w s) w))
          = set (newDeps (watchers s w)) \<union> (set (fired E w s) - newDepIds (watchers s w))"
    and "depIds (watchers (collected E w s) w) = depIds (watchers s w)"
    and "deps (watchers (collected E w s) w) = deps (watchers s w)"
    and "targetStack (collected E w s) = targetStack s @ [Some w]"
    and "w \<in> set (subs (collected E w s) d) \<longleftrightarrow>
          w \<in> set (subs s d)
          \<or> (d \<in> set (fired E w s) \<and> d \<notin> newDepIds (watchers s w) \<and> d \<notin> depIds (watchers s w))"
    and "d \<notin> set (fired E w s) \<Longrightarrow> distinct (subs s d) \<Longrightarrow> distinct (subs (collected E w s) d)"
    and "user (watchers (ran E w s) w) = user (watchers s w)"
    and "vm (watchers (ran E w s) w) = vm (watchers s w)"
proof -
  let ?s1 = "pushTarget (Some w) s"
  let ?as = "fst (getters E w ?s1)"
  let ?s2 = "perform ?as ?s1"
  define s3 where "s3 = (case snd (getters E w ?s1) of
                  Ok v \<Rightarrow> ?s2
                | Throw e \<Rightarrow> if user (watchers ?s2 w) then handleError e (vm (watchers ?s1 w)) ?s2 else ?s2)"
  define tr where "tr = (if deep (watchers s3 w)
      then traverse E (case snd (getters E w ?s1) of Ok v \<Rightarrow> v | Throw e \<Rightarrow> VUndefined) s3 else [])"
  have c: "collected E w s = perform (map Reads tr) s3"
    by (simp add: collected_def Let_def s3_def tr_def perform_Reads touch_def)
  have f: "fired E w s = reads ?as @ tr"
    by (simp add: fired_def Let_def s3_def tr_def)
  have r: "ran E w s = ?s2" by (simp add: ran_def)
  note A = perform_quiet [OF q, simplified]
  have s3w: "watchers s3 = watchers ?s2" "subs s3 = subs ?s2" "target s3 = target ?s2"
    "targetStack s3 = targetStack ?s2"
    by (simp_all add: s3_def split: res.splits)
  have t3: "target s3 = Some w" using A by (simp add: s3w)
  note B = perform_quiet [OF quiet_run_Reads t3, of tr, simplified, unfolded s3w]
  show "newDepIds (watchers (collected E w s) w) = newDepIds (watchers s w) \<union> set (fired E w s)"
    unfolding c f using A B by auto
  show "set (newDeps (watchers (collected E w s) w))
          = set (newDeps (watchers s w)) \<union> (set (fired E w s) - newDepIds (watchers s w))"
    unfolding c f using A B by auto
  show "depIds (watchers (collected E w s) w) = depIds (watchers s w)"
    unfolding c using A B by simp
  show "deps (watchers (collected E w s) w) = deps (watchers s w)"
    unfolding c using A B by simp
  show "targetStack (collected E w s) = targetStack s @ [Some w]"
    unfolding c using A B by simp
  show "w \<in> set (subs (collected E w s) d) \<longleftrightarrow>
          w \<in> set (subs s d)
          \<or> (d \<in> set (fired E w s) \<and> d \<notin> newDepIds (watchers s w) \<and> d \<notin> depIds (watchers s w))"
    unfolding c f using A B by auto
  show "distinct (subs (collected E w s) d)" if "d \<notin> set (fired E w s)" "distinct (subs s d)"
    unfolding c using A B that unfolding f by simp
  show "user (watchers (ran E w s) w) = user (watchers s w)"
    "vm (watchers (ran E w s) w) = vm (watchers s w)"
    unfolding r using A by simp_all
qed

lemma cleanupDeps_watcher_self:
  "watchers (cleanupDeps w s) w =
     (watchers s w)\<lparr>depIds := newDepIds (watchers s w), newDepIds := {},
                     deps := newDeps (watchers s w), newDeps := []\<rparr>"
  by (simp add: cleanupDeps_def Let_def)

lemma cleanupDeps_watcher_other: "w' \<noteq> w \<Longrightarrow> watchers (cleanupDeps w s) w' = watchers s w'"
  by (simp add: cleanupDeps_def Let_def)

lemma cleanupDeps_subs:
  "subs (cleanupDeps w s) d =
     (remove1 w ^^ count_list (filter (\<lambda>x. x \<notin> newDepIds (watchers s w)) (deps (watchers s w))) d)
       (subs s d)"
  by (simp add: cleanupDeps_def Let_def cleanup_walk_subs)

lemma cleanupDeps_target [simp]:
  "target (cleanupDeps w s) = target s" "targetStack (cleanupDeps w s) = targetStack s"
  by (simp_all add: cleanupDeps_def Let_def)

lemma cleanupDeps_subs_kept:
  "d \<in> newDepIds (watchers s w) \<or> d \<notin> set (deps (watchers s w)) \<Longrightarrow>
   subs (cleanupDeps w s) d = subs s d"
  by (auto simp: cleanupDeps_subs)

lemma cleanupDeps_subs_gone:
  "d \<notin> newDepIds (watchers s w) \<Longrightarrow> d \<in> set (deps (watchers s w)) \<Longrightarrow> distinct (subs s d) \<Longrightarrow>
   w \<notin> set (subs (cleanupDeps w s) d)"
proof -
  assume a: "d \<notin> newDepIds (watchers s w)" "d \<in> set (deps (watchers s w))" "distinct (subs s d)"
  have "d \<in> set (filter (\<lambda>x. x \<notin> newDepIds (watchers s w)) (deps (watchers s w)))"
    using a by simp
  then have "count_list (filter (\<lambda>x. x \<notin> newDepIds (watchers s w)) (deps (watchers s w))) d \<noteq> 0"
    by (simp only: count_list_0_iff not_not)
  then show ?thesis
    unfolding cleanupDeps_subs using a(3) by (intro funpow_remove1_gone) simp_all
qed

lemma cleanupDeps_subs_subset: "set (subs (cleanupDeps w s) d) \<subseteq> set (subs s d)"
  unfolding cleanupDeps_subs by (rule funpow_remove1_subset)

lemma get_stack:
  assumes q: "quiet_run w (fst (getters E w (pushTarget (Some w) s))) (pushTarget (Some w) s)"
  shows "targetStack (fst (get E w s)) = targetStack s"
    and "target (fst (get E w s)) = (if targetStack s = [] then None else last (targetStack s))"
  using collected_quiet(5) [OF q] by (simp_all add: get_collected)

lemma run_reconciled:
  assumes q: "quiet_run w (fst (getters E w (pushTarget (Some w) s))) (pushTarget (Some w) s)"
    and new0: "newDeps (watchers s w) = []" "newDepIds (watchers s w) = {}"
    and ids: "depIds (watchers s w) = set (deps (watchers s w))"
    and dist: "\<forall>d. distinct (subs s d)"
  shows "set (deps (watchers (fst (get E w s)) w)) = set (fired E w s)"
    and "depIds (watchers (fst (get E w s)) w) = set (fired E w s)"
    and "newDeps (watchers (fst (get E w s)) w) = []"
    and "newDepIds (watchers (fst (get E w s)) w) = {}"
    and "d \<in> depIds (watchers s w) - set (fired E w s) \<Longrightarrow> w \<notin> set (subs (fst (get E w s)) d)"
    and "d \<in> set (fired E w s) - depIds (watchers s w) \<Longrightarrow> w \<in> set (subs (fst (get E w s)) d)"
    and "d \<in> set (fired E w s) \<inter> depIds (watchers s w) \<Longrightarrow>
          (w \<in> set (subs (fst (get E w s)) d)) = (w \<in> set (subs s d))"
    and "\<forall>x. w \<in> set (subs s x) \<longleftrightarrow> x \<in> depIds (watchers s w) \<Longrightarrow>
          w \<in> set (subs (fst (get E w s)) d) \<longleftrightarrow> d \<in> set (fired E w s)"
proof -
  define F where "F = fired E w s"
  define c where "c = popTarget (collected E w s)"
  have g: "fst (get E w s) = cleanupDeps w c"
    by (simp add: get_collected c_def)
  have cw: "newDepIds (watchers c w) = set F" "set (newDeps (watchers c w)) = set F"
    "depIds (watchers c w) = depIds (watchers s w)" "deps (watchers c w) = deps (watchers s w)"
    using collected_quiet(1-4) [OF q] new0 by (simp_all add: c_def F_def)
  have mem: "w \<in> set (subs c x) \<longleftrightarrow>
      w \<in> set (subs s x) \<or> (x \<in> set F \<and> x \<notin> depIds (watchers s w))" for x
    using collected_quiet(6) [OF q, of x] new0 by (simp add: c_def F_def)
  have cd: "distinct (subs c x)" if "x \<notin> set F" for x
    using collected_quiet(7) [OF q, of x] that dist by (simp add: c_def F_def)
  show "set (deps (watchers (fst (get E w s)) w)) = set (fired E w s)"
    unfolding g F_def [symmetric] by (simp add: cleanupDeps_watcher_self cw)
  show "depIds (watchers (fst (get E w s)) w) = set (fired E w s)"
    unfolding g F_def [symmetric] by (simp add: cleanupDeps_watcher_self cw)
  show "newDeps (watchers (fst (get E w s)) w) = []" "newDepIds (watchers (fst (get E w s)) w) = {}"
    unfolding g by (simp_all add: cleanupDeps_watcher_self)
  have gone: "w \<notin> set (subs (cleanupDeps w c) x)" if "x \<in> depIds (watchers s w) - set F" for x
  proof (rule cleanupDeps_subs_gone)
    show "x \<notin> newDepIds (watchers c w)" using that by (simp add: cw)
    show "x \<in> set (deps (watchers c w))" using that ids by (simp add: cw)
    show "distinct (subs c x)" using that cd by simp
  qed
  have kept: "subs (cleanupDeps w c) x = subs c x" if "x \<in> set F" for x
    using that cleanupDeps_subs_kept [of x c w] by (simp add: cw)
  show "w \<notin> set (subs (fst (get E w s)) d)" if "d \<in> depIds (watchers s w) - set (fired E w s)"
    unfolding g using gone [of d] that by (simp add: F_def)
  show "w \<in> set (subs (fst (get E w s)) d)" if "d \<in> set (fired E w s) - depIds (watchers s w)"
    unfolding g using that kept [of d] mem [of d] by (simp add: F_def)
  show "(w \<in> set (subs (fst (get E w s)) d)) = (w \<in> set (subs s d))"
    if "d \<in> set (fired E w s) \<inter> depIds (watchers s w)"
    unfolding g using that kept [of d] mem [of d] by (simp add: F_def)
  show "w \<in> set (subs (fst (get E w s)) d) \<longleftrightarrow> d \<in> set (fired E w s)"
    if reg: "\<forall>x. w \<in> set (subs s x) \<longleftrightarrow> x \<in> depIds (watchers s w)"
  proof (cases "d \<in> set F")
    case True
    then show ?thesis unfolding g using kept [of d] mem [of d] reg by (auto simp: F_def)
  next
    case False
    show ?thesis
    proof (cases "d \<in> depIds (watchers s w)")
      case True
      then show ?thesis unfolding g using gone [of d] False by (simp add: F_def)
    next
      case nd: False
      have "w \<notin> set (subs c d)" using nd reg False mem [of d] by simp
      then show ?thesis
        unfolding g using cleanupDeps_subs_subset [of w c d] False by (auto simp: F_def)
    qed
  qed
qed

text \<open>
  Claim C1, as amended. Let \<open>get\<close> run for a watcher that is not collecting (\<open>newDeps\<close> and
  \<open>newDepIds\<close> are empty, as \<open>cleanupDeps\<close> leaves them), whose \<open>depIds\<close> are the ids of its
  \<open>deps\<close>, in a state whose subscriber lists hold nobody twice, and let every step of the
  getter other than a read leave the watcher's collection alone. Whether the getter returns
  or throws, afterwards the watcher's \<open>deps\<close> and \<open>depIds\<close> are exactly the Deps whose
  \<open>depend()\<close> fired during the run; the watcher is no longer in the list of any Dep it held
  before and did not touch; it is in the list of every Dep it touched and did not hold; it
  is in the list of a Dep it held and touched again as it was before. If before the run the
  watcher was subscribed to exactly the Deps it held, then after the run it is subscribed
  to exactly the Deps it touched.
\<close>

theorem get_reconciles_deps:
  assumes q: "quiet_run w (fst (getters E w (pushTarget (Some w) s))) (pushTarget (Some w) s)"
    and new0: "newDeps (watchers s w) = []" "newDepIds (watchers s w) = {}"
    and ids: "depIds (watchers s w) = set (deps (watchers s w))"
    and dist: "\<forall>d. distinct (subs s d)"
  shows "set (deps (watchers (fst (get E w s)) w)) = set (fired E w s)
    \<and> depIds (watchers (fst (get E w s)) w) = set (fired E w s)
    \<and> newDeps (watchers (fst (get E w s)) w) = []
    \<and> newDepIds (watchers (fst (get E w s)) w) = {}
    \<and> (\<forall>d \<in> depIds (watchers s w) - set (fired E w s). w \<notin> set (subs (fst (get E w s)) d))
    \<and> (\<forall>d \<in> set (fired E w s) - depIds (watchers s w). w \<in> set (subs (fst (get E w s)) d))
    \<and> (\<forall>d \<in> set (fired E w s) \<inter> depIds (watchers s w).
          (w \<in> set (subs (fst (get E w s)) d)) = (w \<in> set (subs s d)))
    \<and> ((\<forall>d. w \<in> set (subs s d) \<longleftrightarrow> d \<in> depIds (watchers s w)) \<longrightarrow>
        (\<forall>d. w \<in> set (subs (fst (get E w s)) d) \<longleftrightarrow> d \<in> set (fired E w s)))"
  using run_reconciled [OF assms] by blast

lemma cleanup_walk_handled [simp]: "handled (cleanup_walk w n s) = handled s"
  by (induction n arbitrary: s) (simp_all add: Let_def removeSub_def)

lemma cleanupDeps_handled [simp]: "handled (cleanupDeps w s) = handled s"
  by (simp add: cleanupDeps_def Let_def)

lemma popTarget_handled [simp]: "handled (popTarget s) = handled s"
  by (simp add: popTarget_def Let_def)

lemma addDep_handled [simp]: "handled (addDep w d s) = handled s"
  by (simp add: addDep_def addSub_def Let_def)

lemma touch_handled [simp]: "handled (touch ds s) = handled s"
  unfolding touch_def by (induction ds arbitrary: s) (simp_all add: dep_depend_def split: option.splits)

lemma pushTarget_handled [simp]: "handled (pushTarget t s) = handled s"
  by (simp add: pushTarget_def)

lemma touch_watcher_flags [simp]:
  "user (watchers (touch ds s) w) = user (watchers s w)"
  "deep (watchers (touch ds s) w) = deep (watchers s w)"
  "vm (watchers (touch ds s) w) = vm (watchers s w)"
  unfolding touch_def
  by (induction ds arbitrary: s; simp add: dep_depend_def addDep_def addSub_def Let_def split: option.splits)+

lemma touch_targetStack [simp]: "targetStack (touch ds s) = targetStack s"
  unfolding touch_def
  by (induction ds arbitrary: s) (simp_all add: dep_depend_def split: option.splits)

lemma collected_handled:
  "handled (collected E w s) =
     (case snd (getters E w (pushTarget (Some w) s)) of
        Ok v \<Rightarrow> handled (ran E w s)
      | Throw e \<Rightarrow>
          if user (watchers (ran E w s) w)
          then handled (ran E w s) @ [(e, vm (watchers s w))]
          else handled (ran E w s))"
  by (simp add: collected_def ran_def Let_def split: res.splits)

section \<open>A getter that throws\<close>

text \<open>
  Claim C7. Let the getter throw during \<open>get\<close>. For a user watcher the error is handed to
  \<open>handleError\<close> with the watcher's component, after whatever the getter's run handed over,
  and \<open>get\<close> returns (\<open>undefined\<close>); for any other watcher the error leaves \<open>get\<close> and nothing
  more is handed to \<open>handleError\<close>. In both cases \<open>popTarget()\<close> has run: the top of
  \<open>targetStack\<close> is gone and \<open>Dep.target\<close> is the new top; when the getter left \<open>targetStack\<close>
  as \<open>get\<close> handed it over (its own pushes and pops are paired, as they are for every
  getter that acts on the module through its functions, \<open>ran_balanced\<close> below), the stack is
  as before the call and \<open>Dep.target\<close> is the target from before the call, when that was
  the top of the stack then. And \<open>cleanupDeps()\<close> has run on what was collected up to the
  failure: \<open>newDeps\<close> and \<open>newDepIds\<close> are empty, \<open>deps\<close> and \<open>depIds\<close> are what \<open>newDeps\<close> and
  \<open>newDepIds\<close> were, the watcher is out of the list of every Dep that was in \<open>deps\<close> and not
  in \<open>newDepIds\<close>, and the other lists are as they were. For a watcher and a run as in
  claim C1 this means: \<open>deps\<close> and \<open>depIds\<close> are the Deps whose \<open>depend()\<close> fired before the
  failure, the watcher is out of the list of every Dep it held and did not touch, and in
  the list of every Dep it touched.
\<close>

theorem get_getter_throws:
  assumes thr: "snd (getters E w (pushTarget (Some w) s)) = Throw e"
  shows "(if user (watchers (ran E w s) w)
          then snd (get E w s) = Ok VUndefined
             \<and> handled (fst (get E w s)) = handled (ran E w s) @ [(e, vm (watchers s w))]
          else snd (get E w s) = Throw e \<and> handled (fst (get E w s)) = handled (ran E w s))
    \<and> targetStack (fst (get E w s)) = butlast (targetStack (collected E w s))
    \<and> stack_ok (fst (get E w s))
    \<and> (targetStack (ran E w s) = targetStack s @ [Some w] \<longrightarrow>
          targetStack (fst (get E w s)) = targetStack s
          \<and> (stack_ok s \<longrightarrow> target (fst (get E w s)) = target s))
    \<and> newDeps (watchers (fst (get E w s)) w) = []
    \<and> newDepIds (watchers (fst (get E w s)) w) = {}
    \<and> deps (watchers (fst (get E w s)) w) = newDeps (watchers (collected E w s) w)
    \<and> depIds (watchers (fst (get E w s)) w) = newDepIds (watchers (collected E w s) w)
    \<and> (\<forall>d. d \<in> set (deps (watchers (collected E w s) w))
            \<and> d \<notin> newDepIds (watchers (collected E w s) w)
            \<and> distinct (subs (collected E w s) d) \<longrightarrow>
          w \<notin> set (subs (fst (get E w s)) d))
    \<and> (\<forall>d. d \<in> newDepIds (watchers (collected E w s) w)
            \<or> d \<notin> set (deps (watchers (collected E w s) w)) \<longrightarrow>
          subs (fst (get E w s)) d = subs (collected E w s) d)
    \<and> (quiet_run w (fst (getters E w (pushTarget (Some w) s))) (pushTarget (Some w) s)
        \<and> newDeps (watchers s w) = [] \<and> newDepIds (watchers s w) = {}
        \<and> depIds (watchers s w) = set (deps (watchers s w)) \<and> (\<forall>d. distinct (subs s d)) \<longrightarrow>
          set (deps (watchers (fst (get E w s)) w)) = set (fired E w s)
          \<and> depIds (watchers (fst (get E w s)) w) = set (fired E w s)
          \<and> (\<forall>d \<in> depIds (watchers s w) - set (fired E w s). w \<notin> set (subs (fst (get E w s)) d))
          \<and> (\<forall>d \<in> set (fired E w s) - depIds (watchers s w). w \<in> set (subs (fst (get E w s)) d)))"
proof -
  let ?c = "collected E w s"
  have r: "snd (get E w s) = (if user (watchers (ran E w s) w) then Ok VUndefined else Throw e)"
    using thr by (simp add: get_def Let_def ran_def)
  have h: "handled (fst (get E w s)) =
      (if user (watchers (ran E w s) w)
       then handled (ran E w s) @ [(e, vm (watchers s w))]
       else handled (ran E w s))"
    using thr by (simp add: get_collected collected_handled)
  have pop: "targetStack (fst (get E w s)) = butlast (targetStack ?c)"
    by (simp add: get_collected)
  have so: "stack_ok (fst (get E w s))"
    by (simp add: get_collected stack_ok_def)
  have st: "targetStack ?c = targetStack (ran E w s)"
    using thr by (simp add: collected_def ran_def Let_def)
  have bal: "targetStack (fst (get E w s)) = targetStack s
      \<and> (stack_ok s \<longrightarrow> target (fst (get E w s)) = target s)"
    if b: "targetStack (ran E w s) = targetStack s @ [Some w]"
  proof -
    have "targetStack ?c = targetStack s @ [Some w]" using st b by simp
    then show ?thesis by (simp add: get_collected stack_ok_def)
  qed
  have 1: "(if user (watchers (ran E w s) w)
          then snd (get E w s) = Ok VUndefined
             \<and> handled (fst (get E w s)) = handled (ran E w s) @ [(e, vm (watchers s w))]
          else snd (get E w s) = Throw e \<and> handled (fst (get E w s)) = handled (ran E w s))"
    using r h by simp
  have 2: "newDeps (watchers (fst (get E w s)) w) = []"
    "newDepIds (watchers (fst (get E w s)) w) = {}"
    "deps (watchers (fst (get E w s)) w) = newDeps (watchers ?c w)"
    "depIds (watchers (fst (get E w s)) w) = newDepIds (watchers ?c w)"
    by (simp_all add: get_collected cleanupDeps_watcher_self)
  have 3: "w \<notin> set (subs (fst (get E w s)) d)"
    if "d \<in> set (deps (watchers ?c w))" "d \<notin> newDepIds (watchers ?c w)" "distinct (subs ?c d)" for d
    unfolding get_collected using that by (intro cleanupDeps_subs_gone) simp_all
  have 4: "subs (fst (get E w s)) d = subs ?c d"
    if "d \<in> newDepIds (watchers ?c w) \<or> d \<notin> set (deps (watchers ?c w))" for d
    unfolding get_collected using that cleanupDeps_subs_kept [of d "popTarget ?c" w] by simp
  have 5: "set (deps (watchers (fst (get E w s)) w)) = set (fired E w s)
          \<and> depIds (watchers (fst (get E w s)) w) = set (fired E w s)
          \<and> (\<forall>d \<in> depIds (watchers s w) - set (fired E w s). w \<notin> set (subs (fst (get E w s)) d))
          \<and> (\<forall>d \<in> set (fired E w s) - depIds (watchers s w). w \<in> set (subs (fst (get E w s)) d))"
    if q: "quiet_run w (fst (getters E w (pushTarget (Some w) s))) (pushTarget (Some w) s)"
      and new0: "newDeps (watchers s w) = []" "newDepIds (watchers s w) = {}"
      and ids: "depIds (watchers s w) = set (deps (watchers s w))"
      and dist: "\<forall>d. distinct (subs s d)"
    using run_reconciled(1,2,5,6) [OF q new0 ids dist] by blast
  show ?thesis
    using 1 pop so bal 2 3 4 5 by blast
qed

section \<open>update, teardown, notify\<close>

text \<open>
  Claim C6. \<open>update\<close> goes by the watcher's mode, in this order: for a lazy watcher it sets
  \<open>dirty\<close> and changes nothing else; for a watcher that is not lazy and is \<open>sync\<close> it is
  \<open>run\<close>; for every other watcher it is \<open>queueWatcher\<close>, which puts the watcher in the
  queue, and neither the watchers nor the subscriber lists nor the data change (nothing
  has run).
\<close>

theorem update_dispatch:
  "(lazy (watchers s w) \<longrightarrow>
      update E w s = (s\<lparr>watchers := (watchers s)(w := (watchers s w)\<lparr>dirty := True\<rparr>)\<rparr>, Ok ()))
   \<and> (\<not> lazy (watchers s w) \<and> sync (watchers s w) \<longrightarrow> update E w s = run E w s)
   \<and> (\<not> lazy (watchers s w) \<and> \<not> sync (watchers s w) \<longrightarrow>
        update E w s = (queueWatcher w s, Ok ())
        \<and> w \<in> set (queue (fst (update E w s)))
        \<and> watchers (fst (update E w s)) = watchers s
        \<and> subs (fst (update E w s)) = subs s
        \<and> sdata (fst (update E w s)) = sdata s)"
  by (simp add: update_def queueWatcher_def)


lemma teardown_walk_vms [simp]: "vms (teardown_walk w n s) = vms s"
  by (induction n arbitrary: s) (simp_all add: removeSub_def)

lemma teardown_subs:
  "active (watchers s w) \<Longrightarrow>
   subs (teardown w s) d = (remove1 w ^^ count_list (deps (watchers s w)) d) (subs s d)"
  by (simp add: teardown_def Let_def teardown_walk_subs)

lemma teardown_watchers:
  "active (watchers s w) \<Longrightarrow>
   watchers (teardown w s) = (watchers s)(w := (watchers s w)\<lparr>active := False\<rparr>)"
  by (simp add: teardown_def Let_def)

lemma teardown_vms:
  "active (watchers s w) \<Longrightarrow>
   vms (teardown w s) =
     (if isBeingDestroyed (vms s (vm (watchers s w))) then vms s
      else (vms s)(vm (watchers s w) := (vms s (vm (watchers s w)))
             \<lparr>vm_watchers := remove1 w (vm_watchers (vms s (vm (watchers s w))))\<rparr>))"
  by (simp add: teardown_def Let_def remove_arr_def)

text \<open>
  Claim C8, as amended. \<open>teardown\<close> of an active watcher, in a state where the lists of its
  Deps hold nobody twice, takes the watcher out of the list of every Dep in \<open>deps\<close>, leaves
  every other list alone and marks the watcher inactive; a second \<open>teardown\<close> changes
  nothing. When the owning component is being destroyed, what is skipped is the removal
  of the watcher from the component's \<open>_watchers\<close>; otherwise it is removed from there.
\<close>

theorem teardown_unregisters:
  assumes act: "active (watchers s w)"
    and dist: "\<forall>d \<in> set (deps (watchers s w)). distinct (subs s d)"
  shows "(\<forall>d \<in> set (deps (watchers s w)). w \<notin> set (subs (teardown w s) d))
    \<and> (\<forall>d. d \<notin> set (deps (watchers s w)) \<longrightarrow> subs (teardown w s) d = subs s d)
    \<and> \<not> active (watchers (teardown w s) w)
    \<and> teardown w (teardown w s) = teardown w s
    \<and> (if isBeingDestroyed (vms s (vm (watchers s w)))
        then vms (teardown w s) = vms s
        else vm_watchers (vms (teardown w s) (vm (watchers s w))) =
               remove1 w (vm_watchers (vms s (vm (watchers s w)))))"
proof -
  have 1: "w \<notin> set (subs (teardown w s) d)" if "d \<in> set (deps (watchers s w))" for d
  proof -
    have "count_list (deps (watchers s w)) d \<noteq> 0"
      using that by (simp only: count_list_0_iff not_not)
    moreover have "distinct (subs s d)" using that dist by simp
    ultimately show ?thesis
      unfolding teardown_subs [OF act] by (intro funpow_remove1_gone) simp_all
  qed
  have 2: "subs (teardown w s) d = subs s d" if "d \<notin> set (deps (watchers s w))" for d
    using that by (simp add: teardown_subs [OF act])
  have 3: "\<not> active (watchers (teardown w s) w)"
    by (simp add: teardown_watchers [OF act])
  have 4: "teardown w (teardown w s) = teardown w s"
    using 3 by (simp add: teardown_def [of w "teardown w s"])
  have 5: "if isBeingDestroyed (vms s (vm (watchers s w)))
        then vms (teardown w s) = vms s
        else vm_watchers (vms (teardown w s) (vm (watchers s w))) =
               remove1 w (vm_watchers (vms s (vm (watchers s w))))"
    by (simp add: teardown_vms [OF act])
  show ?thesis using 1 2 3 4 5 by blast
qed

lemma teardown_inactive: "\<not> active (watchers s w) \<Longrightarrow> teardown w s = s"
  by (simp add: teardown_def)

lemma notify_loop_drop: "notify_loop E xs i s = update_each E (drop i xs) s"
proof (induction E xs i s rule: notify_loop.induct)
  case (1 E xs i s)
  show ?case
  proof (cases "i < length xs")
    case True
    then have d: "drop i xs = xs ! i # drop (Suc i) xs"
      by (simp add: Cons_nth_drop_Suc)
    show ?thesis
      using True 1 by (subst notify_loop.simps) (simp add: d split: prod.splits res.splits)
  next
    case False
    then show ?thesis by (subst notify_loop.simps) simp
  qed
qed

text \<open>
  Claim C3. \<open>notify\<close> calls \<open>update\<close> on the watchers of a copy of \<open>subs\<close> taken when it is
  called, in order, whatever the calls do to \<open>subs\<close>, until one of them throws. When the
  watchers are not run asynchronously, which is the source's test
  \<open>process.env.NODE_ENV !== 'production' && !config.async\<close>, the copy is first sorted by
  watcher id, ascending: the order is then sorted and a permutation of \<open>subs\<close>. Otherwise
  the order is that of \<open>subs\<close>.
\<close>

theorem notify_snapshot_order:
  "notify E d s =
     update_each E (if \<not> production E \<and> \<not> async E then sort (subs s d) else subs s d) s
   \<and> (\<not> production E \<and> \<not> async E \<longrightarrow>
        sorted (sort (subs s d)) \<and> mset (sort (subs s d)) = mset (subs s d))"
  by (simp add: notify_def Let_def notify_loop_drop)

lemma subs_inv_frame:
  assumes "subs_inv s"
    and "subs s' = subs s"
    and "\<And>w. depIds (watchers s' w) = depIds (watchers s w)"
    and "\<And>w. newDepIds (watchers s' w) = newDepIds (watchers s w)"
    and "\<And>w. deps (watchers s' w) = deps (watchers s w)"
    and "\<And>w. newDeps (watchers s' w) = newDeps (watchers s w)"
    and "watcher_uid s' = watcher_uid s"
    and "target s' = target s"
    and "targetStack s' = targetStack s"
  shows "subs_inv s'"
  using assms unfolding subs_inv_def by (simp; blast)

lemma addDep_watcher_uid [simp]: "watcher_uid (addDep w d s) = watcher_uid s"
  by (simp add: addDep_def addSub_def Let_def)

lemma subs_inv_addDep:
  assumes inv: "subs_inv s" and w: "w \<le> watcher_uid s"
  shows "subs_inv (addDep w d s)"
proof -
  have nin: "w \<notin> set (subs s d)"
    if "d \<notin> newDepIds (watchers s w)" "d \<notin> depIds (watchers s w)"
    using inv that unfolding subs_inv_def by blast
  have 1: "distinct (subs (addDep w d s) d')" for d'
    using inv nin unfolding subs_inv_def by (simp add: addDep_subs)
  have 2: "d' \<in> depIds (watchers (addDep w d s) x) \<union> newDepIds (watchers (addDep w d s) x)
      \<and> x \<le> watcher_uid (addDep w d s)"
    if "x \<in> set (subs (addDep w d s) d')" for d' x
  proof (cases "x = w")
    case True
    then show ?thesis
      using that inv w unfolding subs_inv_def
      by (auto simp: addDep_subs addDep_watcher_self split: if_splits)
  next
    case False
    then show ?thesis
      using that inv unfolding subs_inv_def
      by (auto simp: addDep_subs addDep_watcher_other split: if_splits)
  qed
  have 3: "depIds (watchers (addDep w d s) x) = set (deps (watchers (addDep w d s) x))
      \<and> newDepIds (watchers (addDep w d s) x) = set (newDeps (watchers (addDep w d s) x))" for x
    using inv unfolding subs_inv_def
    by (cases "x = w") (auto simp: addDep_watcher_self addDep_watcher_other)
  have 4: "\<forall>x. target (addDep w d s) = Some x \<longrightarrow> x \<le> watcher_uid (addDep w d s)"
    "\<forall>x. Some x \<in> set (targetStack (addDep w d s)) \<longrightarrow> x \<le> watcher_uid (addDep w d s)"
    using inv unfolding subs_inv_def by simp_all
  show ?thesis
    unfolding subs_inv_def using 1 2 3 4 by blast
qed

lemma subs_inv_target: "subs_inv s \<Longrightarrow> target s = Some w \<Longrightarrow> w \<le> watcher_uid s"
  unfolding subs_inv_def by blast

lemma subs_inv_dep_depend: "subs_inv s \<Longrightarrow> subs_inv (dep_depend d s)"
  by (auto simp: dep_depend_def subs_inv_addDep subs_inv_target split: option.splits)

lemma subs_inv_touch: "subs_inv s \<Longrightarrow> subs_inv (touch ds s)"
  unfolding touch_def by (induction ds arbitrary: s) (simp_all add: subs_inv_dep_depend)

lemma cleanup_walk_watcher_uid [simp]: "watcher_uid (cleanup_walk w n s) = watcher_uid s"
  by (induction n arbitrary: s) (simp_all add: Let_def removeSub_def)

lemma cleanupDeps_watcher_uid [simp]: "watcher_uid (cleanupDeps w s) = watcher_uid s"
  by (simp add: cleanupDeps_def Let_def)

lemma subs_inv_cleanupDeps:
  assumes inv: "subs_inv s"
  shows "subs_inv (cleanupDeps w s)"
proof -
  have d0: "\<And>d. distinct (subs s d)" using inv unfolding subs_inv_def by blast
  have 1: "distinct (subs (cleanupDeps w s) d)" for d
    unfolding cleanupDeps_subs using d0 by (rule funpow_remove1_distinct)
  have sub: "x \<in> set (subs s d)" if "x \<in> set (subs (cleanupDeps w s) d)" for x d
    using that cleanupDeps_subs_subset [of w s d] by blast
  have 2: "d \<in> depIds (watchers (cleanupDeps w s) x) \<union> newDepIds (watchers (cleanupDeps w s) x)
      \<and> x \<le> watcher_uid (cleanupDeps w s)"
    if m: "x \<in> set (subs (cleanupDeps w s) d)" for d x
  proof -
    have old: "d \<in> depIds (watchers s x) \<union> newDepIds (watchers s x)" "x \<le> watcher_uid s"
      using sub [OF m] inv unfolding subs_inv_def by blast+
    show ?thesis
    proof (cases "x = w")
      case True
      have "d \<in> newDepIds (watchers s w)"
      proof (rule ccontr)
        assume n: "d \<notin> newDepIds (watchers s w)"
        then have "d \<in> set (deps (watchers s w))"
          using old True inv unfolding subs_inv_def by auto
        from cleanupDeps_subs_gone [OF n this d0] m True show False by simp
      qed
      then show ?thesis using old True by (simp add: cleanupDeps_watcher_self)
    next
      case False
      then show ?thesis using old by (simp add: cleanupDeps_watcher_other)
    qed
  qed
  have 3: "depIds (watchers (cleanupDeps w s) x) = set (deps (watchers (cleanupDeps w s) x))
      \<and> newDepIds (watchers (cleanupDeps w s) x) = set (newDeps (watchers (cleanupDeps w s) x))" for x
    using inv unfolding subs_inv_def
    by (cases "x = w") (simp_all add: cleanupDeps_watcher_self cleanupDeps_watcher_other)
  have 4: "\<forall>x. target (cleanupDeps w s) = Some x \<longrightarrow> x \<le> watcher_uid (cleanupDeps w s)"
    "\<forall>x. Some x \<in> set (targetStack (cleanupDeps w s)) \<longrightarrow> x \<le> watcher_uid (cleanupDeps w s)"
    using inv unfolding subs_inv_def by simp_all
  show ?thesis
    unfolding subs_inv_def using 1 2 3 4 by blast
qed

lemma subs_inv_pushTarget:
  "subs_inv s \<Longrightarrow> (\<And>w. t = Some w \<Longrightarrow> w \<le> watcher_uid s) \<Longrightarrow> subs_inv (pushTarget t s)"
  unfolding subs_inv_def by (auto simp: pushTarget_def; blast)

lemma subs_inv_popTarget: "subs_inv s \<Longrightarrow> subs_inv (popTarget s)"
proof -
  assume inv: "subs_inv s"
  have a: "Some x \<in> set (targetStack s)" if "Some x \<in> set (butlast (targetStack s))" for x
    using that by (rule in_set_butlastD)
  have b: "Some x \<in> set (targetStack s)"
    if "butlast (targetStack s) \<noteq> []" "last (butlast (targetStack s)) = Some x" for x
    using that last_in_set [of "butlast (targetStack s)"] in_set_butlastD by metis
  show ?thesis
    using inv a b unfolding subs_inv_def by (auto simp: popTarget_def Let_def; blast)
qed

lemma subs_inv_handleError: "subs_inv s \<Longrightarrow> subs_inv (handleError e v s)"
  by (erule subs_inv_frame) (simp_all add: handleError_def)

lemma subs_inv_queueWatcher: "subs_inv s \<Longrightarrow> subs_inv (queueWatcher w s)"
  by (erule subs_inv_frame) (simp_all add: queueWatcher_def)

lemma touch_watcher_uid [simp]: "watcher_uid (touch ds s) = watcher_uid s"
  unfolding touch_def
  by (induction ds arbitrary: s) (simp_all add: dep_depend_def split: option.splits)

lemma dep_depend_watcher_uid [simp]: "watcher_uid (dep_depend d s) = watcher_uid s"
  by (simp add: dep_depend_def split: option.splits)

lemma subs_inv_perform:
  "(\<And>f. Does f \<in> set as \<Longrightarrow> inv_step f) \<Longrightarrow> subs_inv s \<Longrightarrow>
   subs_inv (perform as s) \<and> watcher_uid (perform as s) = watcher_uid s"
proof (induction as s rule: perform.induct)
  case (1 s)
  then show ?case by simp
next
  case (2 d as s)
  have "subs_inv (dep_depend d s)" using "2.prems"(2) by (rule subs_inv_dep_depend)
  then show ?case using "2.IH" "2.prems"(1) by simp
next
  case (3 f as s)
  have "inv_step f" using "3.prems"(1) by simp
  then have "subs_inv (f s)" "watcher_uid (f s) = watcher_uid s"
    using "3.prems"(2) by (simp_all add: inv_step_def)
  then show ?case using "3.IH" "3.prems"(1) by simp
qed

lemma handleError_watcher_uid [simp]: "watcher_uid (handleError e v s) = watcher_uid s"
  by (simp add: handleError_def)

lemma subs_inv_collected:
  assumes "inv_env E" "subs_inv s" "w \<le> watcher_uid s"
  shows "subs_inv (collected E w s) \<and> watcher_uid (collected E w s) = watcher_uid s"
proof -
  let ?s1 = "pushTarget (Some w) s"
  have 1: "subs_inv ?s1"
    using assms by (intro subs_inv_pushTarget) simp_all
  have e: "\<And>f. Does f \<in> set (fst (getters E w ?s1)) \<Longrightarrow> inv_step f"
    using assms(1) unfolding inv_env_def by blast
  have 2: "subs_inv (perform (fst (getters E w ?s1)) ?s1)"
    "watcher_uid (perform (fst (getters E w ?s1)) ?s1) = watcher_uid s"
    using subs_inv_perform [OF e 1] by (simp_all add: pushTarget_def)
  let ?s2 = "perform (fst (getters E w ?s1)) ?s1"
  have 3: "subs_inv (handleError e y ?s2)" "watcher_uid (handleError e y ?s2) = watcher_uid s" for e y
    using 2 by (simp_all add: subs_inv_handleError)
  have 4: "subs_inv (touch ds ?s2)" "subs_inv (touch ds (handleError e y ?s2))" for ds e y
    using 2(1) 3(1) by (simp_all add: subs_inv_touch)
  show ?thesis
    unfolding collected_def Let_def using 2 3 4
    by (simp split: res.splits)
qed

lemma subs_inv_get:
  assumes "inv_env E" "subs_inv s" "w \<le> watcher_uid s"
  shows "subs_inv (fst (get E w s))" and "watcher_uid (fst (get E w s)) = watcher_uid s"
proof -
  note c = subs_inv_collected [OF assms]
  show "subs_inv (fst (get E w s))"
    unfolding get_collected using c by (intro subs_inv_cleanupDeps subs_inv_popTarget) simp
  show "watcher_uid (fst (get E w s)) = watcher_uid s"
    using c by (simp add: get_collected popTarget_def Let_def)
qed

lemma subs_inv_run:
  assumes "inv_env E" "subs_inv s" "w \<le> watcher_uid s"
  shows "subs_inv (fst (run E w s))" and "watcher_uid (fst (run E w s)) = watcher_uid s"
proof -
  obtain s1 r where g: "get E w s = (s1, r)" by (cases "get E w s")
  have i1: "subs_inv s1" and u1: "watcher_uid s1 = watcher_uid s"
    using subs_inv_get [OF assms] g by simp_all
  have i3: "subs_inv (s1\<lparr>watchers := (watchers s1)(w := (watchers s1 w)\<lparr>wvalue := v\<rparr>), sdata := x\<rparr>)"
    for v x
    using i1 by (rule subs_inv_frame) simp_all
  have i4: "subs_inv (handleError e y
      (s1\<lparr>watchers := (watchers s1)(w := (watchers s1 w)\<lparr>wvalue := v\<rparr>), sdata := x\<rparr>))" for e y v x
    using i3 by (rule subs_inv_handleError)
  show "subs_inv (fst (run E w s))"
    using assms(2) g i1 i3 i4 by (simp add: run_def Let_def split: res.splits)
  show "watcher_uid (fst (run E w s)) = watcher_uid s"
    using g u1 by (simp add: run_def Let_def split: res.splits)
qed

lemma subs_inv_update:
  assumes "inv_env E" "subs_inv s" "w \<le> watcher_uid s"
  shows "subs_inv (fst (update E w s))" and "watcher_uid (fst (update E w s)) = watcher_uid s"
proof -
  have l: "subs_inv (s\<lparr>watchers := (watchers s)(w := (watchers s w)\<lparr>dirty := True\<rparr>)\<rparr>)"
    using assms(2) by (rule subs_inv_frame) simp_all
  show "subs_inv (fst (update E w s))"
    using l subs_inv_run(1) [OF assms] subs_inv_queueWatcher [OF assms(2), of w]
    by (simp add: update_def)
  show "watcher_uid (fst (update E w s)) = watcher_uid s"
    using subs_inv_run(2) [OF assms] by (simp add: update_def queueWatcher_def)
qed

lemma subs_inv_evaluate:
  assumes "inv_env E" "subs_inv s" "w \<le> watcher_uid s"
  shows "subs_inv (fst (evaluate E w s))" and "watcher_uid (fst (evaluate E w s)) = watcher_uid s"
proof -
  obtain s1 r where g: "get E w s = (s1, r)" by (cases "get E w s")
  have i1: "subs_inv s1" and u1: "watcher_uid s1 = watcher_uid s"
    using subs_inv_get [OF assms] g by simp_all
  have i2: "subs_inv (s1\<lparr>watchers := (watchers s1)(w := (watchers s1 w)\<lparr>wvalue := v, dirty := False\<rparr>)\<rparr>)" for v
    using i1 by (rule subs_inv_frame) simp_all
  show "subs_inv (fst (evaluate E w s))" using g i1 i2 by (simp add: evaluate_def split: res.splits)
  show "watcher_uid (fst (evaluate E w s)) = watcher_uid s"
    using g u1 by (simp add: evaluate_def split: res.splits)
qed

lemma subs_inv_update_each:
  "inv_env E \<Longrightarrow> subs_inv s \<Longrightarrow> \<forall>w \<in> set ws. w \<le> watcher_uid s \<Longrightarrow>
   subs_inv (fst (update_each E ws s)) \<and> watcher_uid (fst (update_each E ws s)) = watcher_uid s"
proof (induction ws arbitrary: s)
  case Nil
  then show ?case by simp
next
  case (Cons w ws)
  obtain s1 r where u: "update E w s = (s1, r)" by (cases "update E w s")
  have w: "w \<le> watcher_uid s" using Cons.prems(3) by simp
  have i1: "subs_inv s1" and u1: "watcher_uid s1 = watcher_uid s"
    using subs_inv_update [OF Cons.prems(1,2) w] u by simp_all
  show ?case
  proof (cases r)
    case (Ok x)
    have "\<forall>w \<in> set ws. w \<le> watcher_uid s1" using Cons.prems(3) u1 by simp
    then show ?thesis using u Ok Cons.IH [OF Cons.prems(1) i1] u1 by simp
  next
    case (Throw e)
    then show ?thesis using u i1 u1 by simp
  qed
qed

lemma subs_inv_members: "subs_inv s \<Longrightarrow> w \<in> set (subs s d) \<Longrightarrow> w \<le> watcher_uid s"
  unfolding subs_inv_def by blast

lemma subs_inv_notify:
  assumes "inv_env E" "subs_inv s"
  shows "subs_inv (fst (notify E d s))" and "watcher_uid (fst (notify E d s)) = watcher_uid s"
proof -
  have m: "\<forall>w \<in> set (subs s d). w \<le> watcher_uid s"
    using assms(2) subs_inv_members by blast
  then have m': "\<forall>w \<in> set (sort_key (\<lambda>a. a) (subs s d)). w \<le> watcher_uid s" by simp
  show "subs_inv (fst (notify E d s))"
    using subs_inv_update_each [OF assms m] subs_inv_update_each [OF assms m']
    by (simp add: notify_def Let_def notify_loop_drop)
  show "watcher_uid (fst (notify E d s)) = watcher_uid s"
    using subs_inv_update_each [OF assms m] subs_inv_update_each [OF assms m']
    by (simp add: notify_def Let_def notify_loop_drop)
qed

lemma teardown_proj [simp]:
  "watcher_uid (teardown w s) = watcher_uid s"
  "target (teardown w s) = target s"
  "targetStack (teardown w s) = targetStack s"
proof -
  have a: "\<And>n s. watcher_uid (teardown_walk w n s) = watcher_uid s \<and>
      target (teardown_walk w n s) = target s \<and> targetStack (teardown_walk w n s) = targetStack s"
    subgoal for n s
      by (induction n arbitrary: s) (simp_all add: removeSub_def)
    done
  show "watcher_uid (teardown w s) = watcher_uid s"
    "target (teardown w s) = target s"
    "targetStack (teardown w s) = targetStack s"
    by (simp_all add: teardown_def Let_def a)
qed

lemma subs_inv_teardown:
  assumes inv: "subs_inv s"
  shows "subs_inv (teardown w s)"
proof (cases "active (watchers s w)")
  case False
  then show ?thesis using inv by (simp add: teardown_def)
next
  case True
  have d0: "\<And>d. distinct (subs s d)" using inv unfolding subs_inv_def by blast
  have 1: "distinct (subs (teardown w s) d)" for d
    unfolding teardown_subs [OF True] using d0 by (rule funpow_remove1_distinct)
  have sub: "x \<in> set (subs s d)" if "x \<in> set (subs (teardown w s) d)" for x d
    using that funpow_remove1_subset [where w = w and xs = "subs s d"] unfolding teardown_subs [OF True] by blast
  have 2: "d \<in> depIds (watchers (teardown w s) x) \<union> newDepIds (watchers (teardown w s) x)
      \<and> x \<le> watcher_uid (teardown w s)"
    if m: "x \<in> set (subs (teardown w s) d)" for d x
    using sub [OF m] inv unfolding subs_inv_def
    by (auto simp: teardown_watchers [OF True]; blast)
  have 3: "depIds (watchers (teardown w s) x) = set (deps (watchers (teardown w s) x))
      \<and> newDepIds (watchers (teardown w s) x) = set (newDeps (watchers (teardown w s) x))" for x
    using inv unfolding subs_inv_def by (simp add: teardown_watchers [OF True])
  have 4: "\<forall>x. target (teardown w s) = Some x \<longrightarrow> x \<le> watcher_uid (teardown w s)"
    "\<forall>x. Some x \<in> set (targetStack (teardown w s)) \<longrightarrow> x \<le> watcher_uid (teardown w s)"
    using inv unfolding subs_inv_def by simp_all
  show ?thesis
    unfolding subs_inv_def using 1 2 3 4 by blast
qed

lemma subs_inv_new_Dep: "subs_inv s \<Longrightarrow> subs_inv (snd (new_Dep s))"
  unfolding subs_inv_def new_Dep_def by (simp; blast)

lemma subs_inv_depend_walk: "subs_inv s \<Longrightarrow> subs_inv (depend_walk w n s)"
  by (induction n arbitrary: s) (simp_all add: subs_inv_dep_depend)

lemma subs_inv_watcher_depend: "subs_inv s \<Longrightarrow> subs_inv (watcher_depend w s)"
  by (simp add: watcher_depend_def subs_inv_depend_walk)

lemma subs_inv_new_Watcher:
  assumes env: "inv_env E" and inv: "subs_inv s"
  shows "subs_inv (fst (snd (new_Watcher E v a b c d s)))"
proof -
  let ?w = "Suc (watcher_uid s)"
  let ?s1 = "s\<lparr>vms := (vms s)(v := (vms s v)\<lparr>vm_watchers := vm_watchers (vms s v) @ [?w]\<rparr>),
                 watcher_uid := ?w,
                 watchers := (watchers s)
                   (?w := \<lparr>vm = v, deep = a, user = b, lazy = c, sync = d,
                         dirty = c, active = True, deps = [], newDeps = [],
                         depIds = {}, newDepIds = {}, wvalue = VUndefined\<rparr>)\<rparr>"
  have fresh: "?w \<notin> set (subs s x)" for x
    using inv unfolding subs_inv_def by (metis Suc_n_not_le_n)
  have i1: "subs_inv ?s1"
    using inv fresh unfolding subs_inv_def
    by (auto simp: le_Suc_eq; blast)
  obtain s2 r where g: "get E ?w ?s1 = (s2, r)" by (cases "get E ?w ?s1")
  have i2: "subs_inv s2" using subs_inv_get(1) [OF env i1, of ?w] g by simp
  have i3: "subs_inv (s2\<lparr>watchers := (watchers s2)(?w := (watchers s2 ?w)\<lparr>wvalue := x\<rparr>)\<rparr>)" for x
    using i2 by (rule subs_inv_frame) simp_all
  show ?thesis
  proof (cases c)
    case True
    then show ?thesis using i1 by (simp add: new_Watcher_def Let_def)
  next
    case False
    then show ?thesis using i2 i3 g by (simp add: new_Watcher_def Let_def split: res.splits)
  qed
qed

lemma subs_inv_init: "subs_inv (init_state x)"
  by (simp add: subs_inv_def init_state_def)

lemma new_Dep_watcher_uid: "watcher_uid (snd (new_Dep s)) = watcher_uid s"
  by (simp add: new_Dep_def)

lemma made_inv_step: "made f \<Longrightarrow> inv_step f"
proof (induction rule: made.induct)
  case (m_sdata g)
  have "subs_inv (s\<lparr>sdata := g (sdata s)\<rparr>)" if "subs_inv s" for s :: "'a state"
    using that by (rule subs_inv_frame) simp_all
  then show ?case by (simp add: inv_step_def)
next
  case (m_seq f g)
  then show ?case by (simp add: inv_step_def)
next
  case m_new_Dep
  show ?case by (simp add: inv_step_def subs_inv_new_Dep new_Dep_watcher_uid)
next
  case (m_teardown w)
  show ?case by (simp add: inv_step_def subs_inv_teardown)
next
  case (m_notify E d)
  then have e: "inv_env E" unfolding inv_env_def by blast
  show ?case using subs_inv_notify [OF e] by (simp add: inv_step_def)
next
  case (m_evaluate E w)
  then have e: "inv_env E" unfolding inv_env_def by blast
  show ?case using subs_inv_evaluate [OF e] by (simp add: inv_step_def)
qed

lemma calls_made_inv_env: "calls_made E \<Longrightarrow> inv_env E"
  unfolding calls_made_def inv_env_def using made_inv_step by blast

lemma reachable_subs_inv: "reachable E s \<Longrightarrow> subs_inv s"
proof (induction rule: reachable.induct)
  case (r_init x)
  show ?case by (rule subs_inv_init)
next
  case (r_pushTarget_none s)
  then show ?case by (intro subs_inv_pushTarget) simp_all
next
  case (r_pushTarget s w)
  then show ?case by (intro subs_inv_pushTarget) simp_all
qed (simp_all add: subs_inv_new_Dep subs_inv_new_Watcher subs_inv_get subs_inv_run subs_inv_update
      subs_inv_evaluate subs_inv_watcher_depend subs_inv_teardown subs_inv_dep_depend
      subs_inv_notify subs_inv_popTarget subs_inv_cleanupDeps calls_made_inv_env)

lemma perform_stack:
  "(\<And>f. Does f \<in> set as \<Longrightarrow> bal_step f) \<Longrightarrow> targetStack (perform as s) = targetStack s"
proof (induction as s rule: perform.induct)
  case (1 s)
  then show ?case by simp
next
  case (2 d as s)
  have "targetStack (dep_depend d s) = targetStack s"
    by (simp add: dep_depend_def split: option.splits)
  then show ?case using "2.IH" "2.prems" by simp
next
  case (3 f as s)
  have "targetStack (f s) = targetStack s" using "3.prems" by (simp add: bal_step_def)
  then show ?case using "3.IH" "3.prems" by simp
qed

lemma ran_stack: "bal_env E \<Longrightarrow> targetStack (ran E w s) = targetStack s @ [Some w]"
  unfolding ran_def bal_env_def by (subst perform_stack) (blast, simp)

lemma get_stack_env: "bal_env E \<Longrightarrow> targetStack (fst (get E w s)) = targetStack s"
proof -
  assume e: "bal_env E"
  have "targetStack (collected E w s) = targetStack s @ [Some w]"
    using ran_stack [OF e, of w s] by (simp add: collected_def ran_def Let_def split: res.splits)
  then show ?thesis by (simp add: get_collected)
qed

lemma run_stack: "bal_env E \<Longrightarrow> targetStack (fst (run E w s)) = targetStack s"
proof -
  assume e: "bal_env E"
  obtain s1 r where g: "get E w s = (s1, r)" by (cases "get E w s")
  have "targetStack s1 = targetStack s" using get_stack_env [OF e, of w s] g by simp
  then show ?thesis using g by (simp add: run_def Let_def split: res.splits)
qed

lemma update_stack: "bal_env E \<Longrightarrow> targetStack (fst (update E w s)) = targetStack s"
  using run_stack [of E w s] by (simp add: update_def queueWatcher_def)

lemma evaluate_stack: "bal_env E \<Longrightarrow> targetStack (fst (evaluate E w s)) = targetStack s"
proof -
  assume e: "bal_env E"
  obtain s1 r where g: "get E w s = (s1, r)" by (cases "get E w s")
  have "targetStack s1 = targetStack s" using get_stack_env [OF e, of w s] g by simp
  then show ?thesis using g by (simp add: evaluate_def split: res.splits)
qed

lemma update_each_stack: "bal_env E \<Longrightarrow> targetStack (fst (update_each E ws s)) = targetStack s"
proof (induction ws arbitrary: s)
  case Nil
  then show ?case by simp
next
  case (Cons w ws)
  obtain s1 r where u: "update E w s = (s1, r)" by (cases "update E w s")
  have 1: "targetStack s1 = targetStack s" using update_stack [OF Cons.prems, of w s] u by simp
  show ?case using u 1 Cons.IH [OF Cons.prems, of s1] by (cases r) simp_all
qed

lemma notify_stack: "bal_env E \<Longrightarrow> targetStack (fst (notify E d s)) = targetStack s"
  by (simp add: notify_def Let_def notify_loop_drop update_each_stack)

lemma made_bal_step: "made f \<Longrightarrow> bal_step f"
proof (induction rule: made.induct)
  case (m_sdata g)
  show ?case by (simp add: bal_step_def)
next
  case (m_seq f g)
  then show ?case by (simp add: bal_step_def)
next
  case m_new_Dep
  show ?case by (simp add: bal_step_def new_Dep_def)
next
  case (m_teardown w)
  show ?case by (simp add: bal_step_def)
next
  case (m_notify E d)
  then have e: "bal_env E" unfolding bal_env_def by blast
  show ?case using notify_stack [OF e] by (simp add: bal_step_def)
next
  case (m_evaluate E w)
  then have e: "bal_env E" unfolding bal_env_def by blast
  show ?case using evaluate_stack [OF e] by (simp add: bal_step_def)
qed

text \<open>
  A getter that acts on the module through its functions leaves \<open>targetStack\<close> as \<open>get\<close>
  handed it over.
\<close>

lemma ran_balanced: "calls_made E \<Longrightarrow> targetStack (ran E w s) = targetStack s @ [Some w]"
proof -
  assume "calls_made E"
  then have "bal_env E" unfolding calls_made_def bal_env_def using made_bal_step by blast
  then show ?thesis by (rule ran_stack)
qed

text \<open>The write of the example getter is such a step.\<close>

lemma E_re_calls_made: "calls_made E_re"
proof -
  have 1: "made (\<lambda>s. fst (notify E_in 1 s))"
    by (rule m_notify) (simp add: E_in_def)
  have 2: "made (\<lambda>s :: nat state. s\<lparr>sdata := (\<lambda>x. 1) (sdata s)\<rparr>)"
    by (rule m_sdata)
  have "made (\<lambda>s. fst (notify E_in 1 (s\<lparr>sdata := 1\<rparr>)))"
    using m_seq [OF 2 1] by simp
  then show ?thesis
    by (auto simp: calls_made_def E_re_def E_in_def split: if_splits)
qed

lemma distinct_count_le_1: "distinct xs \<Longrightarrow> count_list xs x \<le> 1"
  by (induction xs) (auto simp: count_list_0_iff)

text \<open>
  Claim C2, as amended. \<open>addSub\<close> appends the watcher, present or not. \<open>addDep\<close> calls it
  only for a Dep whose id is in neither \<open>newDepIds\<close> nor \<open>depIds\<close>, so in every state reached
  through the constructors and the methods of \<open>Dep\<close> and \<open>Watcher\<close> (with \<open>addSub\<close> called by
  \<open>addDep\<close> only) a watcher is at most once in any Dep's list.
\<close>

theorem addSub_appends_addDep_guards:
  "subs (addSub d w s) d = subs s d @ [w]
   \<and> (reachable E s \<longrightarrow> distinct (subs s d) \<and> count_list (subs s d) w \<le> 1)"
proof -
  have "distinct (subs s d) \<and> count_list (subs s d) w \<le> 1" if "reachable E s"
  proof -
    have d: "distinct (subs s d)"
      using reachable_subs_inv [OF that] unfolding subs_inv_def by blast
    then show ?thesis
      using distinct_count_le_1 [of "subs s d" w] by simp
  qed
  then show ?thesis by (simp add: addSub_def)
qed

lemmas ev = init_state_def E1_def new_Watcher_def new_Dep_def get_def fired_def pushTarget_def popTarget_def
  touch_def dep_depend_def addDep_def addSub_def cleanupDeps_def removeSub_def remove_arr_def
  handleError_def Let_def
lemmas ex_defs = ex_state_def ex_watcher_def E_dev_def E_thr_def ex_re_def E_re_def E_in_def
lemmas op_defs = new_Watcher_def new_Dep_def get_def fired_def pushTarget_def popTarget_def
  touch_def dep_depend_def addDep_def addSub_def cleanupDeps_def removeSub_def remove_arr_def
  handleError_def run_def update_def evaluate_def queueWatcher_def teardown_def
  watcher_depend_def collected_def ran_def keeps_def notify_def notify_loop_drop Let_def

section \<open>The claims on the example states\<close>

text \<open>
  Claim C1, on the example: watcher 2 holds \<open>b\<close> and the third field. Its getter reads
  \<open>a\<close>, writes \<open>b\<close>, which runs watcher 1 and queues watcher 2, and reads \<open>b\<close>. Afterwards
  watcher 2 holds \<open>a\<close> and \<open>b\<close>, is subscribed to \<open>a\<close> and no longer to the third field.
\<close>

theorem get_reconciles_deps_witness:
  "quiet_run 2 (fst (getters E_re 2 (pushTarget (Some 2) ex_re))) (pushTarget (Some 2) ex_re)
   \<and> newDeps (watchers ex_re 2) = [] \<and> newDepIds (watchers ex_re 2) = {}
   \<and> depIds (watchers ex_re 2) = set (deps (watchers ex_re 2))
   \<and> (\<forall>d. distinct (subs ex_re d))
   \<and> deps (watchers ex_re 2) = [1, 2] \<and> fired E_re 2 ex_re = [0, 1]
   \<and> wvalue (watchers (ran E_re 2 ex_re) 1) = VNum 1 \<and> queue (ran E_re 2 ex_re) = [2]
   \<and> set (deps (watchers (fst (get E_re 2 ex_re)) 2)) = {0, 1}
   \<and> 2 \<notin> set (subs (fst (get E_re 2 ex_re)) 2)
   \<and> 2 \<in> set (subs (fst (get E_re 2 ex_re)) 0)"
proof -
  have q: "quiet_run 2 (fst (getters E_re 2 (pushTarget (Some 2) ex_re))) (pushTarget (Some 2) ex_re)"
    by (simp add: ex_defs op_defs)
  have h: "newDeps (watchers ex_re 2) = []" "newDepIds (watchers ex_re 2) = {}"
    "depIds (watchers ex_re 2) = set (deps (watchers ex_re 2))" "\<forall>d. distinct (subs ex_re d)"
    by (simp_all add: ex_defs)
  have f: "deps (watchers ex_re 2) = [1, 2]" "fired E_re 2 ex_re = [0, 1]"
    "depIds (watchers ex_re 2) = {1, 2}"
    "wvalue (watchers (ran E_re 2 ex_re) 1) = VNum 1" "queue (ran E_re 2 ex_re) = [2]"
    by (simp_all add: ex_defs op_defs)
  note T = get_reconciles_deps [OF q h]
  from T have a: "set (deps (watchers (fst (get E_re 2 ex_re)) 2)) = set (fired E_re 2 ex_re)" by blast
  from T have b: "\<forall>d \<in> depIds (watchers ex_re 2) - set (fired E_re 2 ex_re).
      2 \<notin> set (subs (fst (get E_re 2 ex_re)) d)"
    by blast
  from T have c: "\<forall>d \<in> set (fired E_re 2 ex_re) - depIds (watchers ex_re 2).
      2 \<in> set (subs (fst (get E_re 2 ex_re)) d)"
    by blast
  from b have b': "2 \<notin> set (subs (fst (get E_re 2 ex_re)) 2)" unfolding f by simp
  from c have c': "2 \<in> set (subs (fst (get E_re 2 ex_re)) 0)" unfolding f by simp
  show ?thesis using q h f(1,2,4,5) a b' c' by simp
qed

text \<open>
  Claim C1 as stated fails: watcher 1 is synchronous and holds \<open>a\<close> and \<open>b\<close>. Its getter
  reads \<open>a\<close>, writes \<open>b\<close> and reads \<open>b\<close>; the write runs watcher 1 itself, and the
  \<open>cleanupDeps\<close> of that run empties the \<open>newDepIds\<close> of the run in progress. Afterwards the
  watcher holds \<open>b\<close> only and is out of the list of \<open>a\<close>, whose \<open>depend()\<close> fired.
\<close>

theorem get_nested_run_drops_dep:
  "newDeps (watchers ex_re 1) = [] \<and> newDepIds (watchers ex_re 1) = {}
   \<and> deps (watchers ex_re 1) = [0, 1] \<and> depIds (watchers ex_re 1) = {0, 1}
   \<and> subs ex_re 0 = [1] \<and> subs ex_re 1 = [1, 2]
   \<and> fired E_re 1 ex_re = [0, 1]
   \<and> snd (get E_re 1 ex_re) = Ok (VNum 1)
   \<and> deps (watchers (fst (get E_re 1 ex_re)) 1) = [1]
   \<and> depIds (watchers (fst (get E_re 1 ex_re)) 1) = {1}
   \<and> subs (fst (get E_re 1 ex_re)) 0 = []"
  by (simp add: ex_defs op_defs)

text \<open>
  Claim C3, on the example, in a development build with \<open>config.async\<close> off: the watchers
  are updated in the order 1, 2, 3, 4, 5. Watcher 1 runs at once and unsubscribes from
  Dep 0 during the pass; the others are updated all the same.
\<close>

theorem notify_snapshot_order_witness:
  "\<not> production E_dev \<and> \<not> async E_dev \<and> subs ex_state 0 = [5, 4, 3, 2, 1]
   \<and> notify E_dev 0 ex_state = update_each E_dev [1, 2, 3, 4, 5] ex_state
   \<and> subs (fst (notify E_dev 0 ex_state)) 0 = [5, 4, 3, 2]
   \<and> queue (fst (notify E_dev 0 ex_state)) = [2, 3, 5]
   \<and> dirty (watchers (fst (notify E_dev 0 ex_state)) 4)"
proof -
  have s: "sort (subs ex_state 0) = [1, 2, 3, 4, 5]" by (simp add: ex_defs)
  have a: "\<not> production E_dev \<and> \<not> async E_dev \<and> subs ex_state 0 = [5, 4, 3, 2, 1]"
    by (simp add: ex_defs)
  have n: "notify E_dev 0 ex_state = update_each E_dev [1, 2, 3, 4, 5] ex_state"
    using notify_snapshot_order [of E_dev 0 ex_state] a s by simp
  have r: "subs (fst (update_each E_dev [1, 2, 3, 4, 5] ex_state)) 0 = [5, 4, 3, 2]
     \<and> queue (fst (update_each E_dev [1, 2, 3, 4, 5] ex_state)) = [2, 3, 5]
     \<and> dirty (watchers (fst (update_each E_dev [1, 2, 3, 4, 5] ex_state)) 4)"
    by (simp add: ex_defs op_defs)
  show ?thesis using a n r by simp
qed

text \<open>
  Claim C2, on the example: the state after the first run is reachable, watcher 1 is once
  in the list of Dep 0, and \<open>addDep\<close> does not subscribe it again.
\<close>

theorem addSub_appends_addDep_guards_witness:
  "reachable E1 ex_run1 \<and> subs ex_run1 0 = [1] \<and> distinct (subs ex_run1 0)
   \<and> subs (addSub 0 1 ex_run1) 0 = [1, 1]
   \<and> subs (addDep 1 0 ex_run1) 0 = [1]"
proof -
  have m: "calls_made E1" by (simp add: calls_made_def E1_def)
  have r: "reachable E1 ex_run1"
    unfolding ex_run1_def by (intro reachable.intros m)
  have s: "subs ex_run1 0 = [1]" by (simp add: ex_run1_def ev)
  have g: "subs (addDep 1 0 ex_run1) 0 = [1]" by (simp add: ex_run1_def ev)
  from addSub_appends_addDep_guards [of 0 1 ex_run1 E1] r
  have "subs (addSub 0 1 ex_run1) 0 = subs ex_run1 0 @ [1] \<and> distinct (subs ex_run1 0)"
    by blast
  then show ?thesis using r s g by simp
qed

text \<open>
  Claim C2 as stated fails: \<open>addSub\<close> on a list that holds the watcher appends it again.
\<close>

theorem addSub_duplicates:
  "subs ex_run1 0 = [1] \<and> \<not> distinct (subs (addSub 0 1 ex_run1) 0)"
  by (simp add: ex_run1_def ev)

text \<open>
  Claim C6, on the example: watcher 4 (lazy) becomes dirty, watcher 1 (sync) runs and
  gets its new value, watcher 2 is queued and keeps its old value.
\<close>

theorem update_dispatch_witness:
  "lazy (watchers ex_state 4)
   \<and> fst (update E_dev 4 ex_state)
       = ex_state\<lparr>watchers := (watchers ex_state)(4 := (watchers ex_state 4)\<lparr>dirty := True\<rparr>)\<rparr>
   \<and> \<not> lazy (watchers ex_state 1) \<and> sync (watchers ex_state 1)
   \<and> update E_dev 1 ex_state = run E_dev 1 ex_state
   \<and> wvalue (watchers (fst (update E_dev 1 ex_state)) 1) = VNum 7
   \<and> \<not> lazy (watchers ex_state 2) \<and> \<not> sync (watchers ex_state 2)
   \<and> queue (fst (update E_dev 2 ex_state)) = [2]
   \<and> wvalue (watchers (fst (update E_dev 2 ex_state)) 2) = VUndefined"
proof -
  have f: "lazy (watchers ex_state 4)" "\<not> lazy (watchers ex_state 1)" "sync (watchers ex_state 1)"
    "\<not> lazy (watchers ex_state 2)" "\<not> sync (watchers ex_state 2)"
    by (simp_all add: ex_defs)
  have a: "fst (update E_dev 4 ex_state)
       = ex_state\<lparr>watchers := (watchers ex_state)(4 := (watchers ex_state 4)\<lparr>dirty := True\<rparr>)\<rparr>"
    using update_dispatch [of ex_state 4 E_dev] f by simp
  have b: "update E_dev 1 ex_state = run E_dev 1 ex_state"
    using update_dispatch [of ex_state 1 E_dev] f by simp
  have b': "wvalue (watchers (fst (run E_dev 1 ex_state)) 1) = VNum 7"
    by (simp add: ex_defs op_defs)
  have c: "update E_dev 2 ex_state = (queueWatcher 2 ex_state, Ok ())"
    using update_dispatch [of ex_state 2 E_dev] f by simp
  have c': "queue (queueWatcher 2 ex_state) = [2]" "wvalue (watchers (queueWatcher 2 ex_state) 2) = VUndefined"
    by (simp_all add: ex_defs op_defs)
  show ?thesis using f a b b' c c' by simp
qed

text \<open>
  Claim C7, on the example, while watcher 2 is the target: the getters read the field
  behind Dep 1 and fail. The failure of the user watcher 5 is handled and \<open>get\<close> returns;
  that of watcher 1 leaves \<open>get\<close>. After both, watcher 2 is the target again, and the
  watcher holds Dep 1, is in its list and out of the list of Dep 0.
\<close>

theorem get_getter_throws_witness:
  "snd (getters E_thr 5 (pushTarget (Some 5) ex_nested)) = Throw (UserError ''boom'')
   \<and> targetStack (ran E_thr 5 ex_nested) = targetStack ex_nested @ [Some 5]
   \<and> quiet_run 5 (fst (getters E_thr 5 (pushTarget (Some 5) ex_nested))) (pushTarget (Some 5) ex_nested)
   \<and> newDeps (watchers ex_nested 5) = [] \<and> newDepIds (watchers ex_nested 5) = {}
   \<and> depIds (watchers ex_nested 5) = set (deps (watchers ex_nested 5))
   \<and> (\<forall>d. distinct (subs ex_nested d))
   \<and> user (watchers ex_nested 5) \<and> stack_ok ex_nested \<and> target ex_nested = Some 2
   \<and> deps (watchers ex_nested 5) = [0] \<and> subs ex_nested 0 = [5, 4, 3, 2, 1]
   \<and> snd (get E_thr 5 ex_nested) = Ok VUndefined
   \<and> handled (fst (get E_thr 5 ex_nested)) = [(UserError ''boom'', 0)]
   \<and> target (fst (get E_thr 5 ex_nested)) = Some 2
   \<and> targetStack (fst (get E_thr 5 ex_nested)) = [Some 2]
   \<and> deps (watchers (fst (get E_thr 5 ex_nested)) 5) = [1]
   \<and> 5 \<notin> set (subs (fst (get E_thr 5 ex_nested)) 0)
   \<and> 5 \<in> set (subs (fst (get E_thr 5 ex_nested)) 1)
   \<and> \<not> user (watchers ex_nested 1)
   \<and> snd (get E_thr 1 ex_nested) = Throw (UserError ''boom'')
   \<and> handled (fst (get E_thr 1 ex_nested)) = []
   \<and> target (fst (get E_thr 1 ex_nested)) = Some 2
   \<and> 1 \<notin> set (subs (fst (get E_thr 1 ex_nested)) 0)"
proof -
  have h5: "snd (getters E_thr 5 (pushTarget (Some 5) ex_nested)) = Throw (UserError ''boom'')"
    and h1: "snd (getters E_thr 1 (pushTarget (Some 1) ex_nested)) = Throw (UserError ''boom'')"
    by (simp_all add: ex_defs)
  have b5: "targetStack (ran E_thr 5 ex_nested) = targetStack ex_nested @ [Some 5]"
    and b1: "targetStack (ran E_thr 1 ex_nested) = targetStack ex_nested @ [Some 1]"
    by (simp_all add: ex_nested_def ex_defs op_defs)
  have q5: "quiet_run 5 (fst (getters E_thr 5 (pushTarget (Some 5) ex_nested))) (pushTarget (Some 5) ex_nested)"
    and q1: "quiet_run 1 (fst (getters E_thr 1 (pushTarget (Some 1) ex_nested))) (pushTarget (Some 1) ex_nested)"
    by (simp_all add: ex_defs)
  have n5: "newDeps (watchers ex_nested 5) = []" "newDepIds (watchers ex_nested 5) = {}"
    "depIds (watchers ex_nested 5) = set (deps (watchers ex_nested 5))"
    and n1: "newDeps (watchers ex_nested 1) = []" "newDepIds (watchers ex_nested 1) = {}"
    "depIds (watchers ex_nested 1) = set (deps (watchers ex_nested 1))"
    and di: "\<forall>d. distinct (subs ex_nested d)"
    by (simp_all add: ex_nested_def ex_defs)
  have f: "user (watchers ex_nested 5)" "\<not> user (watchers ex_nested 1)" "stack_ok ex_nested"
    "target ex_nested = Some 2" "targetStack ex_nested = [Some 2]"
    "deps (watchers ex_nested 5) = [0]" "subs ex_nested 0 = [5, 4, 3, 2, 1]"
    by (simp_all add: ex_nested_def ex_defs stack_ok_def pushTarget_def)
  have g: "handled (ran E_thr 5 ex_nested) = []" "handled (ran E_thr 1 ex_nested) = []"
    "fired E_thr 5 ex_nested = [1]" "fired E_thr 1 ex_nested = [1]"
    "user (watchers (ran E_thr 5 ex_nested) 5)" "\<not> user (watchers (ran E_thr 1 ex_nested) 1)"
    "vm (watchers ex_nested 5) = 0"
    "newDeps (watchers (collected E_thr 5 ex_nested) 5) = [1]"
    "depIds (watchers ex_nested 5) = {0}" "depIds (watchers ex_nested 1) = {0}"
    by (simp_all add: ex_nested_def ex_defs op_defs)
  note T5 = get_getter_throws [OF h5] and T1 = get_getter_throws [OF h1]
  have r5: "snd (get E_thr 5 ex_nested) = Ok VUndefined"
    "handled (fst (get E_thr 5 ex_nested)) = [(UserError ''boom'', 0)]"
    using T5 g by simp_all
  have t5: "targetStack (fst (get E_thr 5 ex_nested)) = [Some 2]"
    "target (fst (get E_thr 5 ex_nested)) = Some 2"
    using T5 b5 f by metis+
  from T5 have d5: "deps (watchers (fst (get E_thr 5 ex_nested)) 5)
      = newDeps (watchers (collected E_thr 5 ex_nested) 5)"
    by blast
  from T5 q5 n5 di have a5: "\<forall>d \<in> depIds (watchers ex_nested 5) - set (fired E_thr 5 ex_nested).
      5 \<notin> set (subs (fst (get E_thr 5 ex_nested)) d)"
    by blast
  from T5 q5 n5 di have c5: "\<forall>d \<in> set (fired E_thr 5 ex_nested) - depIds (watchers ex_nested 5).
      5 \<in> set (subs (fst (get E_thr 5 ex_nested)) d)"
    by blast
  from a5 have a5': "5 \<notin> set (subs (fst (get E_thr 5 ex_nested)) 0)" unfolding g by simp
  from c5 have c5': "5 \<in> set (subs (fst (get E_thr 5 ex_nested)) 1)" unfolding g by simp
  have r1: "snd (get E_thr 1 ex_nested) = Throw (UserError ''boom'')"
    "handled (fst (get E_thr 1 ex_nested)) = []"
    using T1 g by simp_all
  have t1: "target (fst (get E_thr 1 ex_nested)) = Some 2"
    using T1 b1 f by metis
  from T1 q1 n1 di have a1: "\<forall>d \<in> depIds (watchers ex_nested 1) - set (fired E_thr 1 ex_nested).
      1 \<notin> set (subs (fst (get E_thr 1 ex_nested)) d)"
    by blast
  from a1 have a1': "1 \<notin> set (subs (fst (get E_thr 1 ex_nested)) 0)" unfolding g by simp
  show ?thesis
    using h5 b5 q5 n5 di f r5 t5 d5 [unfolded g] a5' c5' r1 t1 a1' by simp
qed

text \<open>
  Claim C8, on the example: watcher 2 is unsubscribed and taken out of its component's
  list; watcher 3, whose component is being destroyed, is unsubscribed as well, and its
  component's list is left alone.
\<close>

theorem teardown_unregisters_witness:
  "active (watchers ex_state 2) \<and> deps (watchers ex_state 2) = [0]
   \<and> distinct (subs ex_state 0)
   \<and> \<not> isBeingDestroyed (vms ex_state (vm (watchers ex_state 2)))
   \<and> 2 \<notin> set (subs (teardown 2 ex_state) 0)
   \<and> \<not> active (watchers (teardown 2 ex_state) 2)
   \<and> teardown 2 (teardown 2 ex_state) = teardown 2 ex_state
   \<and> vm_watchers (vms (teardown 2 ex_state) 0) = [1, 4, 5]
   \<and> isBeingDestroyed (vms ex_state (vm (watchers ex_state 3)))
   \<and> 3 \<notin> set (subs (teardown 3 ex_state) 0)
   \<and> vms (teardown 3 ex_state) = vms ex_state"
proof -
  have a2: "active (watchers ex_state 2)" and a3: "active (watchers ex_state 3)"
    by (simp_all add: ex_defs)
  have d2: "\<forall>d \<in> set (deps (watchers ex_state 2)). distinct (subs ex_state d)"
    and d3: "\<forall>d \<in> set (deps (watchers ex_state 3)). distinct (subs ex_state d)"
    by (simp_all add: ex_defs)
  have f: "deps (watchers ex_state 2) = [0]" "deps (watchers ex_state 3) = [0]"
    "distinct (subs ex_state 0)"
    "\<not> isBeingDestroyed (vms ex_state (vm (watchers ex_state 2)))"
    "isBeingDestroyed (vms ex_state (vm (watchers ex_state 3)))"
    "vm (watchers ex_state 2) = 0"
    "remove1 2 (vm_watchers (vms ex_state 0)) = [1, 4, 5]"
    by (simp_all add: ex_defs)
  show ?thesis
    using teardown_unregisters [OF a2 d2] teardown_unregisters [OF a3 d3] a2 f by simp
qed

text \<open>
  Claim C8 as stated fails: for watcher 3, whose component is being destroyed, the walk
  over its Deps is not skipped; Dep 0 loses the watcher.
\<close>

theorem teardown_walk_not_skipped:
  "isBeingDestroyed (vms ex_state (vm (watchers ex_state 3)))
   \<and> active (watchers ex_state 3)
   \<and> subs ex_state 0 = [5, 4, 3, 2, 1]
   \<and> subs (teardown 3 ex_state) 0 = [5, 4, 2, 1]
   \<and> vm_watchers (vms (teardown 3 ex_state) 1) = [3]"
  by (simp add: ex_defs op_defs)

section \<open>The frame of observe\<close>

lemma obs_frame_refl [simp]: "obs_frame s s"
  by (simp add: obs_frame_def)

lemma obs_frame_trans:
  assumes st: "obs_frame s t" and tu: "obs_frame t u"
  shows "obs_frame s u"
proof -
  have ob: "\<exists>b'. ob (objs u ! a) = Some b' \<and> ob_dep b' = ob_dep b \<and> ob_value b' = ob_value b"
    if "ob (objs s ! a) = Some b" for a b
  proof -
    from st that obtain b1 where b1: "ob (objs t ! a) = Some b1" "ob_dep b1 = ob_dep b" "ob_value b1 = ob_value b"
      unfolding obs_frame_def by blast
    from tu b1(1) obtain b2 where "ob (objs u ! a) = Some b2" "ob_dep b2 = ob_dep b1" "ob_value b2 = ob_value b1"
      unfolding obs_frame_def by blast
    then show ?thesis using b1 by simp
  qed
  have cl: "closures (sdata u) d = closures (sdata s) d \<and> subs u d = subs s d" if "d < dep_uid s" for d
  proof -
    have "d < dep_uid t" using st that unfolding obs_frame_def by simp
    then show ?thesis using st tu that unfolding obs_frame_def by simp
  qed
  have rest: "length (objs u) = length (objs s)"
    "\<And>a. kind (objs u ! a) = kind (objs s ! a) \<and> extensible (objs u ! a) = extensible (objs s ! a)
        \<and> isVue (objs u ! a) = isVue (objs s ! a) \<and> elems (objs u ! a) = elems (objs s ! a)
        \<and> proto_keys (objs u ! a) = proto_keys (objs s ! a)"
    "dep_uid s \<le> dep_uid u"
    "ustate (sdata u) = ustate (sdata s)" "shouldObserve (sdata u) = shouldObserve (sdata s)"
    "objectProto (sdata u) = objectProto (sdata s)"
    "customSetterCalls (sdata u) = customSetterCalls (sdata s)"
    "watchers u = watchers s" "target u = target s" "targetStack u = targetStack s"
    "watcher_uid u = watcher_uid s" "vms u = vms s" "queue u = queue s"
    "handled u = handled s" "warned u = warned s"
    using st tu unfolding obs_frame_def by simp_all
  show ?thesis
    unfolding obs_frame_def using ob cl rest by blast
qed

lemma objs_upd_obj:
  "objs (upd_obj a f s) = (objs s)[a := f (objs s ! a)]"
  by (simp add: objs_def upd_obj_def)

lemma nth_upd_obj:
  "objs (upd_obj a f s) ! b = (if b = a \<and> a < length (objs s) then f (objs s ! a) else objs s ! b)"
  by (cases "a < length (objs s)") (simp_all add: objs_upd_obj nth_list_update list_update_beyond)

lemma upd_obj_proj [simp]:
  "dep_uid (upd_obj a f s) = dep_uid s" "subs (upd_obj a f s) = subs s"
  "closures (sdata (upd_obj a f s)) = closures (sdata s)"
  "ustate (sdata (upd_obj a f s)) = ustate (sdata s)"
  "shouldObserve (sdata (upd_obj a f s)) = shouldObserve (sdata s)"
  "objectProto (sdata (upd_obj a f s)) = objectProto (sdata s)"
  "customSetterCalls (sdata (upd_obj a f s)) = customSetterCalls (sdata s)"
  "watchers (upd_obj a f s) = watchers s" "target (upd_obj a f s) = target s"
  "targetStack (upd_obj a f s) = targetStack s" "watcher_uid (upd_obj a f s) = watcher_uid s"
  "vms (upd_obj a f s) = vms s" "queue (upd_obj a f s) = queue s"
  "handled (upd_obj a f s) = handled s" "warned (upd_obj a f s) = warned s"
  "length (objs (upd_obj a f s)) = length (objs s)"
  by (simp_all add: upd_obj_def objs_def)

lemma upd_closure_proj [simp]:
  "dep_uid (upd_closure d f s) = dep_uid s" "subs (upd_closure d f s) = subs s"
  "closures (sdata (upd_closure d f s)) = (closures (sdata s))(d := f (closures (sdata s) d))"
  "ustate (sdata (upd_closure d f s)) = ustate (sdata s)"
  "shouldObserve (sdata (upd_closure d f s)) = shouldObserve (sdata s)"
  "objectProto (sdata (upd_closure d f s)) = objectProto (sdata s)"
  "customSetterCalls (sdata (upd_closure d f s)) = customSetterCalls (sdata s)"
  "watchers (upd_closure d f s) = watchers s" "target (upd_closure d f s) = target s"
  "targetStack (upd_closure d f s) = targetStack s" "watcher_uid (upd_closure d f s) = watcher_uid s"
  "vms (upd_closure d f s) = vms s" "queue (upd_closure d f s) = queue s"
  "handled (upd_closure d f s) = handled s" "warned (upd_closure d f s) = warned s"
  "objs (upd_closure d f s) = objs s"
  by (simp_all add: upd_closure_def objs_def)

lemma new_Dep_proj [simp]:
  "dep_uid (snd (new_Dep s)) = Suc (dep_uid s)" "fst (new_Dep s) = dep_uid s"
  "subs (snd (new_Dep s)) = (subs s)(dep_uid s := [])"
  "sdata (snd (new_Dep s)) = sdata s" "objs (snd (new_Dep s)) = objs s"
  "watchers (snd (new_Dep s)) = watchers s" "target (snd (new_Dep s)) = target s"
  "targetStack (snd (new_Dep s)) = targetStack s" "watcher_uid (snd (new_Dep s)) = watcher_uid s"
  "vms (snd (new_Dep s)) = vms s" "queue (snd (new_Dep s)) = queue s"
  "handled (snd (new_Dep s)) = handled s" "warned (snd (new_Dep s)) = warned s"
  by (simp_all add: new_Dep_def objs_def)

lemma obs_frame_new_Dep: "obs_frame s (snd (new_Dep s))"
  by (simp add: obs_frame_def)

lemma obs_frame_set_ob:
  "ob (objs s ! a) = None \<Longrightarrow> obs_frame s (upd_obj a (\<lambda>x. x\<lparr>ob := Some c\<rparr>) s)"
  by (simp add: obs_frame_def nth_upd_obj)

lemma obs_frame_vmCount_incr: "obs_frame s (vmCount_incr a s)"
  by (auto simp: obs_frame_def vmCount_incr_def nth_upd_obj)

lemma obs_frame_install:
  "obs_frame s t \<Longrightarrow> dep_uid s \<le> d \<Longrightarrow> obs_frame s (install a k d c t)"
  unfolding obs_frame_def install_def by (simp add: nth_upd_obj)

lemma observe_frame_all:
  fixes E :: "'u henv"
  shows "\<forall>t h. observe E n v r s = Some (t, h) \<longrightarrow> obs_frame s t"
    and "\<forall>t. defineReactive E n a k varg cu sh s = Some t \<longrightarrow> obs_frame s t"
    and "\<forall>t. walk E n a ks s = Some t \<longrightarrow> obs_frame s t"
    and "\<forall>t. observeArray E n a i l s = Some t \<longrightarrow> obs_frame s t"
proof (induction E n v r s and E n a k varg cu sh s and E n a ks s and E n a i l s
    rule: observe_defineReactive_walk_observeArray.induct)
  case (1 E v asRootData s)
  then show ?case by (simp add: observe.simps)
next
  case (2 E n v asRootData s)
  show ?case
  proof (intro allI impI)
    fix t h
    assume r: "observe E (Suc n) v asRootData s = Some (t, h)"
    show "obs_frame s t"
    proof (cases "deref s v")
      case None
      then show ?thesis using r by (simp add: observe.simps)
    next
      case (Some x)
      let ?s1 = "upd_obj x (\<lambda>y. y\<lparr>ob := Some \<lparr>ob_value = x, ob_dep = dep_uid s, vmCount = 0\<rparr>\<rparr>) (snd (new_Dep s))"
      show ?thesis
      proof (cases "kind (objs s ! x) = VNodeObject")
        case True
        then show ?thesis using r Some by (simp add: observe.simps)
      next
        case nv: False
        show ?thesis
        proof (cases "ob (objs s ! x)")
          case (Some b)
          then have "t = (if asRootData then vmCount_incr x s else s)"
            using r \<open>deref s v = Some x\<close> nv by (simp add: observe.simps)
          then show ?thesis by (simp add: obs_frame_vmCount_incr)
        next
          case None
          have f1: "obs_frame s ?s1"
          proof (rule obs_frame_trans [OF obs_frame_new_Dep])
            show "obs_frame (snd (new_Dep s)) ?s1"
              using None by (intro obs_frame_set_ob) simp
          qed
          show ?thesis
          proof (cases "shouldObserve (sdata s) \<and> \<not> serverRendering E
                    \<and> (kind (objs s ! x) = ArrayObject \<or> kind (objs s ! x) = PlainObject)
                    \<and> extensible (objs s ! x) \<and> \<not> isVue (objs s ! x)")
            case False
            have "observe E (Suc n) v asRootData s = Some (s, None)"
              unfolding observe.simps using \<open>deref s v = Some x\<close> nv None
              by (simp only: option.case if_False if_not_P [OF False])
            then have "t = s" using r by simp
            then show ?thesis by simp
          next
            case True
            show ?thesis
            proof (cases "kind (objs ?s1 ! x) = ArrayObject")
              case arr: True
              from 2(1) [OF \<open>deref s v = Some x\<close> nv None True refl refl arr]
              have ih: "\<forall>t. observeArray E n x 0 (length (elems (objs ?s1 ! x))) ?s1 = Some t \<longrightarrow> obs_frame ?s1 t" .
              have eq: "observe E (Suc n) v asRootData s =
                  (case observeArray E n x 0 (length (elems (objs ?s1 ! x))) ?s1 of
                     None \<Rightarrow> None
                   | Some s2 \<Rightarrow> Some (if asRootData then vmCount_incr x s2 else s2, Some (dep_uid s)))"
                unfolding observe.simps Let_def using \<open>deref s v = Some x\<close> nv None True arr
                by (simp only: option.case if_False if_True simp_thms)
              obtain s2 where s2: "observeArray E n x 0 (length (elems (objs ?s1 ! x))) ?s1 = Some s2"
                and t: "t = (if asRootData then vmCount_incr x s2 else s2)"
                using r unfolding eq by (cases "observeArray E n x 0 (length (elems (objs ?s1 ! x))) ?s1") simp_all
              have "obs_frame ?s1 s2" using ih s2 by blast
              then have f2: "obs_frame s s2" using f1 obs_frame_trans by blast
              have "obs_frame s (vmCount_incr x s2)"
                by (rule obs_frame_trans [OF f2 obs_frame_vmCount_incr])
              then show ?thesis unfolding t using f2 by simp
            next
              case narr: False
              from 2(2) [OF \<open>deref s v = Some x\<close> nv None True refl refl narr]
              have ih: "\<forall>t. walk E n x (keys_of (objs ?s1 ! x)) ?s1 = Some t \<longrightarrow> obs_frame ?s1 t" .
              have eq: "observe E (Suc n) v asRootData s =
                  (case walk E n x (keys_of (objs ?s1 ! x)) ?s1 of
                     None \<Rightarrow> None
                   | Some s2 \<Rightarrow> Some (if asRootData then vmCount_incr x s2 else s2, Some (dep_uid s)))"
                unfolding observe.simps Let_def using \<open>deref s v = Some x\<close> nv None True narr
                by (simp only: option.case if_False if_True simp_thms)
              obtain s2 where s2: "walk E n x (keys_of (objs ?s1 ! x)) ?s1 = Some s2"
                and t: "t = (if asRootData then vmCount_incr x s2 else s2)"
                using r unfolding eq by (cases "walk E n x (keys_of (objs ?s1 ! x)) ?s1") simp_all
              have "obs_frame ?s1 s2" using ih s2 by blast
              then have f2: "obs_frame s s2" using f1 obs_frame_trans by blast
              have "obs_frame s (vmCount_incr x s2)"
                by (rule obs_frame_trans [OF f2 obs_frame_vmCount_incr])
              then show ?thesis unfolding t using f2 by simp
            qed
          qed
        qed
      qed
    qed
  qed
next
  case (3 E n a k varg custom shal s)
  show ?case
  proof (intro allI impI)
    fix t
    assume r: "defineReactive E n a k varg custom shal s = Some t"
    let ?s1 = "snd (new_Dep s)"
    have f1: "obs_frame s ?s1" by (rule obs_frame_new_Dep)
    show "obs_frame s t"
    proof (cases "plan_of (objs ?s1 ! a) (ustate (sdata ?s1)) k varg")
      case Leave
      then show ?thesis using r f1 by (simp add: defineReactive.simps Let_def)
    next
      case NoResult
      then show ?thesis using r by (simp add: defineReactive.simps Let_def)
    next
      case (Install g st x)
      show ?thesis
      proof (cases shal)
        case True
        then have "t = install a k (dep_uid s) \<lparr>cval = x, childOb = None, getter = g, setter = st,
                           shallow = shal, customSetter = custom\<rparr> ?s1"
          using r Install by (simp add: defineReactive.simps Let_def)
        then show ?thesis
          using obs_frame_install [OF f1, of "dep_uid s"] by simp
      next
        case False
        from 3 [OF refl refl Install False]
        have ih: "\<forall>t h. observe E n x False ?s1 = Some (t, h) \<longrightarrow> obs_frame ?s1 t" .
        obtain s2 c where s2: "observe E n x False ?s1 = Some (s2, c)"
          and t: "t = install a k (dep_uid s) \<lparr>cval = x, childOb = c, getter = g, setter = st,
                           shallow = shal, customSetter = custom\<rparr> s2"
          using r Install False
          by (auto simp: defineReactive.simps Let_def split: option.splits)
        have f2: "obs_frame s s2" using f1 ih s2 obs_frame_trans by blast
        show ?thesis unfolding t
          using obs_frame_install [OF f2, of "dep_uid s"] by simp
      qed
    qed
  qed
next
  case (4 E n a s)
  then show ?case by simp
next
  case (5 E n a k ks s)
  show ?case
  proof (intro allI impI)
    fix t
    assume r: "walk E n a (k # ks) s = Some t"
    then obtain s1 where s1: "defineReactive E n a k None False False s = Some s1"
      and t: "walk E n a ks s1 = Some t"
      by (auto split: option.splits)
    have "obs_frame s s1" using 5(1) s1 by blast
    moreover have "obs_frame s1 t" using 5(2) [OF s1] t by blast
    ultimately show "obs_frame s t" by (rule obs_frame_trans)
  qed
next
  case (6 E n a i s)
  then show ?case by simp
next
  case (7 E n a i l s)
  show ?case
  proof (intro allI impI)
    fix t
    assume r: "observeArray E n a i (Suc l) s = Some t"
    then obtain s1 c where s1: "observe E n (item_at (elems (objs s ! a)) i) False s = Some (s1, c)"
      and t: "observeArray E n a (Suc i) l s1 = Some t"
      by (auto split: option.splits)
    have "obs_frame s s1" using 7(1) s1 by blast
    moreover have "obs_frame s1 t" using 7(2) [OF s1 refl] t by blast
    ultimately show "obs_frame s t" by (rule obs_frame_trans)
  qed
qed

lemma observe_frame: "observe E n v r s = Some (t, h) \<Longrightarrow> obs_frame s t"
  using observe_frame_all(1) by blast

lemma walk_frame: "walk E n a ks s = Some t \<Longrightarrow> obs_frame s t"
  using observe_frame_all(3) by blast

lemma observeArray_frame: "observeArray E n a i l s = Some t \<Longrightarrow> obs_frame s t"
  using observe_frame_all(4) by blast


lemma deref_Some: "deref s v = Some a \<longleftrightarrow> v = VRef a \<and> a < length (objs s)"
  by (cases v) (auto simp: deref_def)

lemma obs_frame_deref: "obs_frame s t \<Longrightarrow> deref t v = deref s v"
  by (cases v) (simp_all add: deref_def obs_frame_def)

lemma obs_frame_ob:
  "obs_frame s t \<Longrightarrow> ob (objs s ! a) = Some b \<Longrightarrow>
   \<exists>b'. ob (objs t ! a) = Some b' \<and> ob_dep b' = ob_dep b \<and> ob_value b' = ob_value b"
  unfolding obs_frame_def by blast

lemma obs_frame_kind: "obs_frame s t \<Longrightarrow> kind (objs t ! a) = kind (objs s ! a)"
  unfolding obs_frame_def by blast

text \<open>the observer that observe returns is the one the value carries afterwards\<close>
lemma observe_handle:
  assumes r: "observe E n v r s = Some (t, Some h)"
  shows "\<exists>a b. deref s v = Some a \<and> kind (objs s ! a) \<noteq> VNodeObject
           \<and> ob (objs t ! a) = Some b \<and> ob_dep b = h"
proof (cases n)
  case 0
  then show ?thesis using r by (simp add: observe.simps)
next
  case (Suc m)
  note r' = r [unfolded Suc]
  show ?thesis
  proof (cases "deref s v")
    case None
    then show ?thesis using r' by (simp add: observe.simps)
  next
    case (Some a)
    have al: "a < length (objs s)" using Some by (simp add: deref_Some)
    show ?thesis
    proof (cases "kind (objs s ! a) = VNodeObject")
      case True
      then show ?thesis using r' Some by (simp add: observe.simps)
    next
      case nv: False
      show ?thesis
      proof (cases "ob (objs s ! a)")
        case (Some b)
        then have t: "t = (if r then vmCount_incr a s else s)" and h: "h = ob_dep b"
          using r' \<open>deref s v = Some a\<close> nv by (simp_all add: observe.simps)
        obtain b' where "ob (objs t ! a) = Some b'" "ob_dep b' = ob_dep b"
          using obs_frame_ob [OF obs_frame_vmCount_incr Some, of a] Some unfolding t
          by (cases r) auto
        then show ?thesis using \<open>deref s v = Some a\<close> nv h by auto
      next
        case None
        let ?s1 = "upd_obj a (\<lambda>y. y\<lparr>ob := Some \<lparr>ob_value = a, ob_dep = dep_uid s, vmCount = 0\<rparr>\<rparr>) (snd (new_Dep s))"
        have ob1: "ob (objs ?s1 ! a) = Some \<lparr>ob_value = a, ob_dep = dep_uid s, vmCount = 0\<rparr>"
          using al by (simp add: nth_upd_obj)
        show ?thesis
        proof (cases "shouldObserve (sdata s) \<and> \<not> serverRendering E
                    \<and> (kind (objs s ! a) = ArrayObject \<or> kind (objs s ! a) = PlainObject)
                    \<and> extensible (objs s ! a) \<and> \<not> isVue (objs s ! a)")
          case False
          have "observe E (Suc m) v r s = Some (s, None)"
            unfolding observe.simps using \<open>deref s v = Some a\<close> nv None
            by (simp only: option.case if_False if_not_P [OF False])
          then show ?thesis using r' by simp
        next
          case True
          have eq: "observe E (Suc m) v r s =
              (case (if kind (objs ?s1 ! a) = ArrayObject
                     then observeArray E m a 0 (length (elems (objs ?s1 ! a))) ?s1
                     else walk E m a (keys_of (objs ?s1 ! a)) ?s1) of
                 None \<Rightarrow> None
               | Some s2 \<Rightarrow> Some (if r then vmCount_incr a s2 else s2, Some (dep_uid s)))"
            unfolding observe.simps Let_def using \<open>deref s v = Some a\<close> nv None True
            by (simp only: option.case if_False if_True simp_thms)
          obtain s2 where s2: "(if kind (objs ?s1 ! a) = ArrayObject
                     then observeArray E m a 0 (length (elems (objs ?s1 ! a))) ?s1
                     else walk E m a (keys_of (objs ?s1 ! a)) ?s1) = Some s2"
            and t: "t = (if r then vmCount_incr a s2 else s2)" and h: "h = dep_uid s"
            using r' unfolding eq by (auto split: option.splits)
          have f: "obs_frame ?s1 s2"
            using s2 walk_frame observeArray_frame by (auto split: if_splits)
          have f': "obs_frame ?s1 t"
            unfolding t using f obs_frame_trans [OF f obs_frame_vmCount_incr] by simp
          obtain b' where "ob (objs t ! a) = Some b'" "ob_dep b' = dep_uid s"
            using obs_frame_ob [OF f' ob1] by auto
          then show ?thesis using \<open>deref s v = Some a\<close> nv h by auto
        qed
      qed
    qed
  qed
qed

lemma observe_observed:
  assumes "deref s v = Some a" "kind (objs s ! a) \<noteq> VNodeObject" "ob (objs s ! a) = Some b"
  shows "observe E (Suc m) v r s = Some (if r then vmCount_incr a s else s, Some (ob_dep b))"
  using assms by (simp add: observe.simps)

lemma custom_called_proj [simp]:
  "closures (sdata (custom_called E d s)) = closures (sdata s)"
  "ustate (sdata (custom_called E d s)) = ustate (sdata s)"
  "heap (sdata (custom_called E d s)) = heap (sdata s)"
  "objs (custom_called E d s) = objs s"
  "subs (custom_called E d s) = subs s" "watchers (custom_called E d s) = watchers s"
  "queue (custom_called E d s) = queue s" "dep_uid (custom_called E d s) = dep_uid s"
  "handled (custom_called E d s) = handled s"
  by (simp_all add: custom_called_def objs_def)

lemma warn_proj [simp]:
  "sdata (warn E s) = sdata s" "objs (warn E s) = objs s" "subs (warn E s) = subs s"
  "watchers (warn E s) = watchers s" "queue (warn E s) = queue s" "dep_uid (warn E s) = dep_uid s"
  "warned (warn E s) = (if production E then warned s else Suc (warned s))"
  by (simp_all add: warn_def objs_def)

lemma touched_only_refl [simp]: "touched_only X s s"
  by (simp add: touched_only_def)




lemma touched_only_new_Dep [simp]: "touched_only X s (snd (new_Dep s))"
  by (simp add: touched_only_def)






section \<open>observe returns\<close>











section \<open>observe, reactiveSetter and set\<close>

text \<open>
  Claim C5. Once \<open>observe\<close> has returned an Observer for a value, every later call on that
  value, with any positive bound, returns the same handle. Called without \<open>asRootData\<close> it
  leaves the state as it is; called with \<open>asRootData\<close> it only increments \<open>vmCount\<close>: no
  property is defined again, no closure changes and no Dep is made. Whatever is observed
  afterwards, the object keeps the Observer with that handle.
\<close>

theorem observe_idempotent:
  assumes r: "observe E n v r s = Some (t, Some h)" and m: "0 < m"
  shows "observe E m v False t = Some (t, Some h)
    \<and> (\<exists>a. deref t v = Some a
          \<and> observe E m v True t = Some (vmCount_incr a t, Some h)
          \<and> (\<forall>b. props (objs (vmCount_incr a t) ! b) = props (objs t ! b))
          \<and> closures (sdata (vmCount_incr a t)) = closures (sdata t)
          \<and> dep_uid (vmCount_incr a t) = dep_uid t
          \<and> (\<forall>m' v' r' u h'. observe E m' v' r' t = Some (u, h') \<longrightarrow>
                (\<exists>b. ob (objs u ! a) = Some b \<and> ob_dep b = h)))"
proof -
  obtain a b where a: "deref s v = Some a" "kind (objs s ! a) \<noteq> VNodeObject"
    and b: "ob (objs t ! a) = Some b" "ob_dep b = h"
    using observe_handle [OF r] by blast
  have f: "obs_frame s t" using r by (rule observe_frame)
  have a': "deref t v = Some a" "kind (objs t ! a) \<noteq> VNodeObject"
    using a f by (simp_all add: obs_frame_deref obs_frame_kind)
  obtain m0 where m0: "m = Suc m0" using m by (cases m) simp_all
  have 1: "observe E m v False t = Some (t, Some h)"
    using observe_observed [OF a' b(1), of E m0 False] b(2) m0 by simp
  have 2: "observe E m v True t = Some (vmCount_incr a t, Some h)"
    using observe_observed [OF a' b(1), of E m0 True] b(2) m0 by simp
  have 3: "\<exists>b'. ob (objs u ! a) = Some b' \<and> ob_dep b' = h"
    if "observe E m' v' r' t = Some (u, h')" for m' v' r' u h'
    using obs_frame_ob [OF observe_frame [OF that] b(1)] b(2) by auto
  have 4: "\<forall>b. props (objs (vmCount_incr a t) ! b) = props (objs t ! b)"
    "closures (sdata (vmCount_incr a t)) = closures (sdata t)"
    "dep_uid (vmCount_incr a t) = dep_uid t"
    by (simp_all add: vmCount_incr_def nth_upd_obj)
  show ?thesis
    using 1 2 3 4 a'(1) by blast
qed

text \<open>
  Claim C9. For a reactive field defined over an accessor property with a getter and no
  setter, \<open>reactiveSetter\<close> returns without storing, observing or notifying: the field's
  value, the user's state, the closures, the heap, the Deps, their subscribers, the
  watchers and the queue are as before. When the value differs, a build that is not a
  production build has called \<open>customSetter\<close> if one was given, and nothing else.
\<close>

theorem setter_getter_only_drops:
  assumes g: "getter (closures (sdata s) d) = Some g"
    and st: "setter (closures (sdata s) d) = None"
  shows "reactiveSetter E n d newVal s =
           Some (if same_value newVal (g (ustate (sdata s))) then s else custom_called E d s, Ok ())
    \<and> (\<exists>t. reactiveSetter E n d newVal s = Some (t, Ok ())
          \<and> field_value t d = field_value s d
          \<and> ustate (sdata t) = ustate (sdata s)
          \<and> closures (sdata t) = closures (sdata s)
          \<and> heap (sdata t) = heap (sdata s)
          \<and> dep_uid t = dep_uid s \<and> subs t = subs s \<and> watchers t = watchers s
          \<and> queue t = queue s \<and> handled t = handled s)"
proof -
  have 1: "reactiveSetter E n d newVal s =
           Some (if same_value newVal (g (ustate (sdata s))) then s else custom_called E d s, Ok ())"
    using g st by (simp add: reactiveSetter_def custom_called_def Let_def)
  show ?thesis
    unfolding 1 by (cases "same_value newVal (g (ustate (sdata s)))") (simp_all add: field_value_def g)
qed






section \<open>The observer's claims on the example heap\<close>

lemmas hp_defs = ex_hp_def ex_hp3_def ex_obj_def ex_closure_def data_prop_def reactive_prop_def
  E_h_def init_state_def
lemmas hp_ops = observe.simps defineReactive.simps plan_of_def install_def upd_obj_def upd_closure_def
  vmCount_incr_def keys_of_def item_at_def deref_def objs_def arg_or_undefined_def new_Dep_def
  Let_def numeral_3_eq_3 numeral_2_eq_2
lemmas w_ops = new_Watcher_def get_def pushTarget_def popTarget_def touch_def dep_depend_def
  addDep_def addSub_def cleanupDeps_def removeSub_def remove_arr_def handleError_def
  update_def queueWatcher_def run_def notify_def notify_loop_drop
lemmas s_ops = reactiveSetter_def same_value_def stored_def custom_called_def set_op_def assign_def
  warn_def returning_def has_own_def key_in_def splice1_def field_value_def getter_only_def


lemmas ex3 = ex_h3_def hp_defs hp_ops w_ops s_ops

text \<open>The example state is the state the calls build.\<close>

lemma ex_h3_built:
  "observe E_h 3 (VRef 0) True (init_state ex_hp) = Some (ex_h1, Some 0)"
  "defineReactive E_h 3 3 (Name ''attrs'') (Some VNull) False True ex_h1 = Some ex_h2"
  "objs ex_h3_run = objs ex_h3"
  "\<forall>d < 8. closures (sdata ex_h3_run) d = closures (sdata ex_h3) d"
  "\<forall>d. subs ex_h3_run d = subs ex_h3 d"
  "watchers ex_h3_run 1 = watchers ex_h3 1"
  "vms ex_h3_run 0 = vms ex_h3 0"
  "dep_uid ex_h3_run = dep_uid ex_h3" "watcher_uid ex_h3_run = watcher_uid ex_h3"
  "target ex_h3_run = target ex_h3" "targetStack ex_h3_run = targetStack ex_h3"
  "queue ex_h3_run = queue ex_h3" "ustate (sdata ex_h3_run) = ustate (sdata ex_h3)"
  by (simp_all add: ex_h3_run_def ex_h2_def ex_h1_def ex_h3_def hp_defs hp_ops w_ops All_less_Suc
      insert_commute)

text \<open>
  Claim C5 on the example: \<open>observe(data, true)\<close> returns the Observer with Dep 0 after
  making seven Deps, and a second call returns the same handle and the same state.
\<close>

theorem observe_idempotent_witness:
  "observe E_h 3 (VRef 0) True (init_state ex_hp) = Some (ex_h1, Some 0)
   \<and> dep_uid ex_h1 = 7
   \<and> map (\<lambda>x. map_option ob_dep (ob x)) (objs ex_h1) = [Some 0, Some 3, None, None, None]
   \<and> observe E_h 1 (VRef 0) False ex_h1 = Some (ex_h1, Some 0)"
proof -
  have a: "observe E_h 3 (VRef 0) True (init_state ex_hp) = Some (ex_h1, Some 0)"
    by (simp add: ex_h1_def hp_defs hp_ops)
  have c: "dep_uid ex_h1 = 7"
    "map (\<lambda>x. map_option ob_dep (ob x)) (objs ex_h1) = [Some 0, Some 3, None, None, None]"
    by (simp_all add: ex_h1_def hp_defs hp_ops)
  from observe_idempotent [OF a, of 1] have "observe E_h 1 (VRef 0) False ex_h1 = Some (ex_h1, Some 0)"
    by simp
  then show ?thesis using a c by simp
qed

text \<open>
  Claim C9 on the example: writing 9 to the field \<open>g\<close>, which holds 5 and has a subscriber,
  leaves the state as it is.
\<close>

theorem setter_getter_only_drops_witness:
  "getter_only (closures (sdata ex_h3) 5) \<and> field_value ex_h3 5 = VNum 5
   \<and> subs ex_h3 5 = [1]
   \<and> reactiveSetter E_h 3 5 (VNum 9) ex_h3 = Some (ex_h3, Ok ())"
proof -
  have g: "getter (closures (sdata ex_h3) 5) = Some (\<lambda>u. u)" "setter (closures (sdata ex_h3) 5) = None"
    "ustate (sdata ex_h3) = VNum 5" "\<not> customSetter (closures (sdata ex_h3) 5)"
    by (simp_all add: ex3)
  have f: "getter_only (closures (sdata ex_h3) 5)" "field_value ex_h3 5 = VNum 5" "subs ex_h3 5 = [1]"
    by (simp_all add: ex3)
  have "reactiveSetter E_h 3 5 (VNum 9) ex_h3 = Some (ex_h3, Ok ())"
    using setter_getter_only_drops [OF g(1,2), of E_h 3 "VNum 9"] g(3,4)
    by (simp add: custom_called_def same_value_def)
  then show ?thesis using f by simp
qed





end
